theory Spec2Isabelle
  imports Complex_Main "HOL-Library.Multiset"
begin

section \<open>The node auto-scaler: data model\<close>

text \<open>
  The program is one Go file, \<^verbatim>\<open>main.go\<close>. It polls the CI master's build queue and
  starts or stops the virtual machines of a fixed pool of build boxes. This theory embeds
  its functions as HOL functions over an explicit state: the two collaborators (the CI
  master behind \<^verbatim>\<open>httpClient\<close> and the compute plane behind \<^verbatim>\<open>service\<close>) are an
  environment of reply functions over a world of any type, and every request, log line
  and sleep of the program is appended to a trace.
\<close>

subsection \<open>Integers\<close>

text \<open>
  Go's \<^verbatim>\<open>/\<close> and \<^verbatim>\<open>%\<close> on \<^verbatim>\<open>int\<close> truncate towards zero, and the remainder has the
  sign of the dividend; HOL's \<open>div\<close> and \<open>mod\<close> round towards minus infinity.
\<close>

definition go_quot :: "int \<Rightarrow> int \<Rightarrow> int" where
  "go_quot a b = sgn a * sgn b * (\<bar>a\<bar> div \<bar>b\<bar>)"

definition go_rem :: "int \<Rightarrow> int \<Rightarrow> int" where
  "go_rem a b = a - b * go_quot a b"

subsection \<open>Failures\<close>

text \<open>
  A call of the program either returns a value (\<open>Inr\<close>) or does not (\<open>Inl\<close>):
  \<^item> \<open>Panic\<close>: a run-time panic of the goroutine that makes the call (a nil dereference,
    an integer division by zero, an index out of range);
  \<^item> \<open>GoroutinePanic\<close>: a panic in a goroutine started with \<^verbatim>\<open>go\<close>, which no
    \<^verbatim>\<open>recover\<close> of \<^verbatim>\<open>main\<close> catches;
  \<^item> \<open>OutOfFuel\<close>: the status waiter was still polling when the fuel given to the
    model ran out (the loop of the source has no bound).
\<close>

datatype failure = Panic | GoroutinePanic | OutOfFuel

subsection \<open>The capacity rule\<close>

text \<open>
  \<^verbatim>\<open>calculateNumberOfBoxesToStart\<close> reads the package variable \<^verbatim>\<open>workersPerBuildBox\<close>;
  here it is the first argument. A zero divisor panics in Go.
\<close>

definition calculateNumberOfBoxesToStart :: "int \<Rightarrow> int \<Rightarrow> failure + int" where
  "calculateNumberOfBoxesToStart workersPerBuildBox queueSize =
     (if workersPerBuildBox = 0 then Inl Panic
      else
        let modv = (if go_rem queueSize workersPerBuildBox \<noteq> 0 then 1 else 0)
        in Inr (go_quot queueSize workersPerBuildBox + modv))"

subsection \<open>What the collaborators send back\<close>

text \<open>
  The two structs the program decodes JSON into. \<open>ArchitectureMonitor\<close> is the field
  \<^verbatim>\<open>MonitorData.HudsonNodeMonitorsArchitectureMonitor\<close>, a \<^verbatim>\<open>*string\<close>: \<open>None\<close> is nil.
\<close>

record QueueItem =
  Buildable :: bool
  TaskName :: string

record JenkinsQueue =
  Items :: "QueueItem list"

record JenkinsBuildBoxInfo =
  Idle :: bool
  TemporarilyOffline :: bool
  Offline :: bool
  ArchitectureMonitor :: "string option"

text \<open>The zero value \<^verbatim>\<open>JenkinsBuildBoxInfo{}\<close>.\<close>

definition zeroInfo :: JenkinsBuildBoxInfo where
  "zeroInfo = \<lparr>Idle = False, TemporarilyOffline = False, Offline = False,
               ArchitectureMonitor = None\<rparr>"

text \<open>
  A GET of the program is \<^verbatim>\<open>httpClient.Do(req)\<close> followed by \<^verbatim>\<open>decoder.Decode(&data)\<close>.
  Three things can come of it: \<^verbatim>\<open>Do\<close> returns an error and a nil response
  (\<open>DoFailed\<close>), the body does not decode (\<open>Undecodable\<close>), or it decodes.
\<close>

datatype 'a http_reply = DoFailed | Undecodable | Decoded 'a

subsection \<open>Log lines and events\<close>

text \<open>One constructor for each \<^verbatim>\<open>log.Printf\<close> and \<^verbatim>\<open>log.Println\<close> of the source.\<close>

datatype msg =
    RecoveredPanic
  | CredsError
  | QueueSizeIs int
  | IterationFinished
  | CheckingOffline
  | MoreBoxesNeeded int
  | NoMoreBoxes
  | IsOfflineTryingOnline string
  | StartRequestFailed
  | CheckingIdle
  | NotOfflineTogglingOffline string
  | WasToggled string string
  | AgentRelaunched string
  | DidNotComeOnline string
  | StopRequestFailed
  | NodeInfoUndecodable string
  | QueueUndecodable
  | IsRunningStopping string
  | GetInstanceFailed
  | GetInstanceFailedFor string
  | StatusChanged string string
  | StatusReached string string

text \<open>
  What the program does to the outside, in order. A read carries the reply it got, a
  command whether it was accepted (\<open>True\<close> when the call returned no error).
  \<open>ToggleNodeStatus b m ok\<close> is the POST to \<^verbatim>\<open>/toggleOffline\<close> made by
  \<^verbatim>\<open>toggleNodeStatus(httpClient, b, m)\<close>; the message \<open>m\<close> is the caller's label
  (\<^verbatim>\<open>"offline"\<close> or \<^verbatim>\<open>"online"\<close>) and is not sent: the endpoint flips the flag.
\<close>

datatype event =
    Log msg
  | NodeInfoGet string "JenkinsBuildBoxInfo http_reply"
  | QueueGet "JenkinsQueue http_reply"
  | ToggleNodeStatus string string bool
  | LaunchSlaveAgentPost string
  | InstancesGet string "string option"
  | InstancesStart string bool
  | InstancesStop string bool
  | Slept nat

subsection \<open>The environment and the state\<close>

text \<open>
  The collaborators are reply functions over a world \<open>'w\<close> of any type; nothing is
  assumed about them. \<open>instancesGet\<close> replies \<open>None\<close> for an error and the instance's
  \<^verbatim>\<open>Status\<close> otherwise. \<open>sleep n\<close> is the world after \<open>n\<close> seconds have passed, and
  \<open>randIntn n\<close> is \<^verbatim>\<open>rand.Intn(n)\<close>.
\<close>

record 'w env =
  getNodeInfo :: "string \<Rightarrow> 'w \<Rightarrow> JenkinsBuildBoxInfo http_reply \<times> 'w"
  getQueue :: "'w \<Rightarrow> JenkinsQueue http_reply \<times> 'w"
  postToggleOffline :: "string \<Rightarrow> 'w \<Rightarrow> bool \<times> 'w"
  postLaunchSlaveAgent :: "string \<Rightarrow> 'w \<Rightarrow> 'w"
  instancesGet :: "string \<Rightarrow> 'w \<Rightarrow> string option \<times> 'w"
  instancesStart :: "string \<Rightarrow> 'w \<Rightarrow> bool \<times> 'w"
  instancesStop :: "string \<Rightarrow> 'w \<Rightarrow> bool \<times> 'w"
  sleep :: "nat \<Rightarrow> 'w \<Rightarrow> 'w"
  randIntn :: "nat \<Rightarrow> 'w \<Rightarrow> nat \<times> 'w"

text \<open>
  The clock counts seconds. Only \<^verbatim>\<open>time.Sleep\<close> advances it: a call to a collaborator
  takes no time in this model.
\<close>

record 'w state =
  world :: 'w
  clock :: nat
  trace :: "event list"

type_synonym ('a, 'w) prog = "'w state \<Rightarrow> (failure + 'a) \<times> 'w state"

definition ret :: "'a \<Rightarrow> ('a, 'w) prog" where
  "ret x s = (Inr x, s)"

definition andThen :: "('a, 'w) prog \<Rightarrow> ('a \<Rightarrow> ('b, 'w) prog) \<Rightarrow> ('b, 'w) prog" where
  "andThen m f s = (case m s of (Inl e, s') \<Rightarrow> (Inl e, s') | (Inr x, s') \<Rightarrow> f x s')"

definition emit :: "event \<Rightarrow> 'w state \<Rightarrow> 'w state" where
  "emit e s = s\<lparr>trace := trace s @ [e]\<rparr>"

definition say :: "msg \<Rightarrow> (unit, 'w) prog" where
  "say m s = (Inr (), emit (Log m) s)"

definition sleepFor :: "'w env \<Rightarrow> nat \<Rightarrow> (unit, 'w) prog" where
  "sleepFor E n s =
     (Inr (), emit (Slept n) (s\<lparr>world := sleep E n (world s), clock := clock s + n\<rparr>))"

subsection \<open>Reads from the CI master\<close>

text \<open>
  \<^verbatim>\<open>fetchNodeInfo\<close> (lines 263 to 278). The error of \<^verbatim>\<open>httpClient.Do\<close> is never looked
  at: line 267 evaluates \<^verbatim>\<open>resp.Body\<close> at once, which is a nil dereference when \<^verbatim>\<open>Do\<close>
  failed. \<^verbatim>\<open>http.NewRequest\<close> is taken to succeed (the URL is a constant around the
  name of the box).
\<close>

definition fetchNodeInfo :: "'w env \<Rightarrow> string \<Rightarrow> (JenkinsBuildBoxInfo, 'w) prog" where
  "fetchNodeInfo E buildBox s =
     (let (r, w) = getNodeInfo E buildBox (world s);
          s1 = emit (NodeInfoGet buildBox r) (s\<lparr>world := w\<rparr>)
      in case r of
           DoFailed \<Rightarrow> (Inl Panic, s1)
         | Undecodable \<Rightarrow> (Inr zeroInfo, emit (Log (NodeInfoUndecodable buildBox)) s1)
         | Decoded data \<Rightarrow> (Inr data, s1))"

definition isAgentConnected :: "'w env \<Rightarrow> string \<Rightarrow> (bool, 'w) prog" where
  "isAgentConnected E buildBox =
     andThen (fetchNodeInfo E buildBox) (\<lambda>data. ret (ArchitectureMonitor data \<noteq> None))"

definition isNodeOffline :: "'w env \<Rightarrow> string \<Rightarrow> (bool, 'w) prog" where
  "isNodeOffline E buildBox = andThen (fetchNodeInfo E buildBox) (\<lambda>data. ret (Offline data))"

definition isNodeTemporarilyOffline :: "'w env \<Rightarrow> string \<Rightarrow> (bool, 'w) prog" where
  "isNodeTemporarilyOffline E buildBox =
     andThen (fetchNodeInfo E buildBox) (\<lambda>data. ret (TemporarilyOffline data))"

definition isNodeIdle :: "'w env \<Rightarrow> string \<Rightarrow> (bool, 'w) prog" where
  "isNodeIdle E buildBox = andThen (fetchNodeInfo E buildBox) (\<lambda>data. ret (Idle data))"

text \<open>\<^verbatim>\<open>fetchQueueSize\<close> (lines 280 to 301), with the same dereference at line 284.\<close>

definition fetchQueueSize :: "'w env \<Rightarrow> (int, 'w) prog" where
  "fetchQueueSize E s =
     (let (r, w) = getQueue E (world s);
          s1 = emit (QueueGet r) (s\<lparr>world := w\<rparr>)
      in case r of
           DoFailed \<Rightarrow> (Inl Panic, s1)
         | Undecodable \<Rightarrow> (Inr 0, emit (Log QueueUndecodable) s1)
         | Decoded data \<Rightarrow>
             (Inr (foldl (\<lambda>counter i. if Buildable i then counter + 1 else counter) 0
                     (Items data)), s1))"

subsection \<open>Commands to the CI master\<close>

text \<open>
  \<^verbatim>\<open>toggleNodeStatus\<close> (lines 185 to 194) returns the error of the POST; the model
  returns \<open>True\<close> when there was none. The response is not read, so nothing panics.
\<close>

definition toggleNodeStatus :: "'w env \<Rightarrow> string \<Rightarrow> string \<Rightarrow> (bool, 'w) prog" where
  "toggleNodeStatus E buildBox message s =
     (let (ok, w) = postToggleOffline E buildBox (world s);
          s1 = emit (ToggleNodeStatus buildBox message ok) (s\<lparr>world := w\<rparr>)
      in (Inr ok, if ok then emit (Log (WasToggled buildBox message)) s1 else s1))"

definition launchSlaveAgent :: "'w env \<Rightarrow> string \<Rightarrow> (unit, 'w) prog" where
  "launchSlaveAgent E buildBox s =
     (Inr (), emit (LaunchSlaveAgentPost buildBox)
                (s\<lparr>world := postLaunchSlaveAgent E buildBox (world s)\<rparr>))"

subsection \<open>The compute plane\<close>

definition isBuildBoxRunning :: "'w env \<Rightarrow> string \<Rightarrow> (bool, 'w) prog" where
  "isBuildBoxRunning E buildBox s =
     (let (r, w) = instancesGet E buildBox (world s);
          s1 = emit (InstancesGet buildBox r) (s\<lparr>world := w\<rparr>)
      in case r of
           None \<Rightarrow> (Inr False, emit (Log GetInstanceFailed) s1)
         | Some status \<Rightarrow> (Inr (status = ''RUNNING''), s1))"

text \<open>
  \<^verbatim>\<open>waitForStatus\<close> (lines 320 to 342) loops until the target status is seen; the loop
  has no bound, so the model takes fuel, one unit for each poll. \<open>waitLoop\<close> is the
  \<^verbatim>\<open>for\<close> loop, with the local \<^verbatim>\<open>previousStatus\<close> as an argument. After a failed poll
  the source continues at once, without sleeping.
\<close>

fun waitLoop ::
  "'w env \<Rightarrow> string \<Rightarrow> string \<Rightarrow> string \<Rightarrow> nat \<Rightarrow> (unit, 'w) prog" where
  "waitLoop E buildBox status previousStatus 0 s = (Inl OutOfFuel, s)"
| "waitLoop E buildBox status previousStatus (Suc fuel) s =
     (let (r, w) = instancesGet E buildBox (world s);
          s1 = emit (InstancesGet buildBox r) (s\<lparr>world := w\<rparr>)
      in case r of
           None \<Rightarrow>
             waitLoop E buildBox status previousStatus fuel
               (emit (Log (GetInstanceFailedFor buildBox)) s1)
         | Some st \<Rightarrow>
             (let s2 = (if previousStatus \<noteq> st
                        then emit (Log (StatusChanged buildBox st)) s1 else s1);
                  previousStatus' = (if previousStatus \<noteq> st then st else previousStatus)
              in if st = status
                 then (Inr (), emit (Log (StatusReached buildBox status)) s2)
                 else waitLoop E buildBox status previousStatus' fuel
                        (snd (sleepFor E 3 s2))))"

definition waitForStatus :: "'w env \<Rightarrow> string \<Rightarrow> string \<Rightarrow> nat \<Rightarrow> (unit, 'w) prog" where
  "waitForStatus E buildBox status fuel = waitLoop E buildBox status [] fuel"

definition startBuildBox :: "'w env \<Rightarrow> nat \<Rightarrow> string \<Rightarrow> (unit, 'w) prog" where
  "startBuildBox E fuel buildBox =
     andThen (isBuildBoxRunning E buildBox) (\<lambda>running.
       if running then ret ()
       else (\<lambda>s.
         let (ok, w) = instancesStart E buildBox (world s);
             s1 = emit (InstancesStart buildBox ok) (s\<lparr>world := w\<rparr>)
         in if \<not> ok then say StartRequestFailed s1
            else andThen (waitForStatus E buildBox ''RUNNING'' fuel)
                   (\<lambda>_. sleepFor E 20) s1))"

text \<open>\<^verbatim>\<open>stopBuildBox\<close> returns the error of the stop request; \<open>True\<close> is nil.\<close>

definition stopBuildBox :: "'w env \<Rightarrow> nat \<Rightarrow> string \<Rightarrow> (bool, 'w) prog" where
  "stopBuildBox E fuel buildBox s =
     (let (ok, w) = instancesStop E buildBox (world s);
          s1 = emit (InstancesStop buildBox ok) (s\<lparr>world := w\<rparr>)
      in if \<not> ok then andThen (say StopRequestFailed) (\<lambda>_. ret False) s1
         else andThen (waitForStatus E buildBox ''TERMINATED'' fuel)
                (\<lambda>_. ret True) s1)"

definition ensureBuildBoxIsNotRunning :: "'w env \<Rightarrow> nat \<Rightarrow> string \<Rightarrow> (unit, 'w) prog" where
  "ensureBuildBoxIsNotRunning E fuel buildBox =
     andThen (isBuildBoxRunning E buildBox) (\<lambda>running.
       if running
       then andThen (say (IsRunningStopping buildBox))
              (\<lambda>_. andThen (stopBuildBox E fuel buildBox) (\<lambda>_. ret ()))
       else ret ())"

subsection \<open>The agent launcher\<close>

text \<open>
  \<^verbatim>\<open>launchNodeAgent\<close> (lines 196 to 226) starts a goroutine that checks the agent and
  asks for a relaunch every 10 seconds, and waits for it or for a timer of 120 seconds.
  The model runs the retry loop against the clock: \<open>deadline\<close> is the time the timer
  fires. At the \<^verbatim>\<open>select\<close> at the head of the loop, the timer has fired when the clock
  has reached the deadline: the caller has logged the failure and sends on \<^verbatim>\<open>quit\<close>,
  and the loop returns. With calls that take no time the timer can only fire during a
  sleep, so the two goroutines never run at the same moment. A call that takes time can
  be in flight when the timer fires; what the two goroutines do then is outside this
  model. A panic of the goroutine is a \<open>GoroutinePanic\<close>.
\<close>

function launchLoop :: "'w env \<Rightarrow> string \<Rightarrow> nat \<Rightarrow> (unit, 'w) prog" where
  "launchLoop E buildBox deadline s =
     (if deadline \<le> clock s then say (DidNotComeOnline buildBox) s
      else case isAgentConnected E buildBox s of
             (Inl e, s1) \<Rightarrow> (Inl GoroutinePanic, s1)
           | (Inr agentUp, s1) \<Rightarrow>
               if agentUp then (Inr (), s1)
               else launchLoop E buildBox deadline
                      (snd (sleepFor E 10 (snd (launchSlaveAgent E buildBox s1)))))"
  by pat_completeness auto
termination
  by (relation "measure (\<lambda>(E, buildBox, deadline, s). deadline - clock s)")
     (auto simp: isAgentConnected_def fetchNodeInfo_def andThen_def ret_def emit_def
        sleepFor_def launchSlaveAgent_def Let_def
        split: prod.splits http_reply.splits sum.splits)

definition launchNodeAgent :: "'w env \<Rightarrow> string \<Rightarrow> (unit, 'w) prog" where
  "launchNodeAgent E buildBox =
     andThen (say (AgentRelaunched buildBox))
       (\<lambda>_ s. launchLoop E buildBox (clock s + 120) s)"

subsection \<open>The two transitions of a build box\<close>

text \<open>\<^verbatim>\<open>startBuildBoxAsync\<close> (lines 123 to 136): the results of the toggles are dropped.\<close>

definition startBuildBoxAsync :: "'w env \<Rightarrow> nat \<Rightarrow> string \<Rightarrow> (unit, 'w) prog" where
  "startBuildBoxAsync E fuel buildBox =
     andThen (say (IsOfflineTryingOnline buildBox)) (\<lambda>_.
     andThen (isNodeTemporarilyOffline E buildBox) (\<lambda>tempOffline.
     andThen (if \<not> tempOffline
              then andThen (toggleNodeStatus E buildBox ''offline'') (\<lambda>_. ret ())
              else ret ()) (\<lambda>_.
     andThen (startBuildBox E fuel buildBox) (\<lambda>_.
     andThen (isAgentConnected E buildBox) (\<lambda>agentUp.
     andThen (if \<not> agentUp then launchNodeAgent E buildBox else ret ()) (\<lambda>_.
     andThen (isNodeTemporarilyOffline E buildBox) (\<lambda>stillTempOffline.
     if stillTempOffline
     then andThen (toggleNodeStatus E buildBox ''online'') (\<lambda>_. ret ())
     else ret ())))))))"

text \<open>\<^verbatim>\<open>stopBuildBoxAsync\<close> (lines 171 to 183).\<close>

definition stopBuildBoxAsync :: "'w env \<Rightarrow> nat \<Rightarrow> string \<Rightarrow> (unit, 'w) prog" where
  "stopBuildBoxAsync E fuel buildBox =
     andThen (isNodeIdle E buildBox) (\<lambda>idle.
     if \<not> idle then ret ()
     else
       andThen (isNodeTemporarilyOffline E buildBox) (\<lambda>tempOffline.
       andThen (if \<not> tempOffline
                then andThen (say (NotOfflineTogglingOffline buildBox)) (\<lambda>_.
                     andThen (toggleNodeStatus E buildBox ''offline'') (\<lambda>_. ret ()))
                else ret ()) (\<lambda>_.
       ensureBuildBoxIsNotRunning E fuel buildBox)))"

subsection \<open>The fleet\<close>

text \<open>
  \<^verbatim>\<open>go task(...)\<close> for each box and then \<^verbatim>\<open>wg.Wait()\<close>: the caller goes on when every
  task has returned. The tasks of different boxes run at the same time in the program;
  the model runs them one after the other, in the order they were started, after the
  loop that started them. A panic in a task is not caught by anything.
\<close>

definition asGoroutine :: "(unit, 'w) prog \<Rightarrow> (unit, 'w) prog" where
  "asGoroutine task s =
     (case task s of
        (Inl Panic, s') \<Rightarrow> (Inl GoroutinePanic, s')
      | (r, s') \<Rightarrow> (r, s'))"

fun runTasks :: "(string \<Rightarrow> (unit, 'w) prog) \<Rightarrow> string list \<Rightarrow> (unit, 'w) prog" where
  "runTasks task [] = ret ()"
| "runTasks task (buildBox # rest) =
     andThen (asGoroutine (task buildBox)) (\<lambda>_. runTasks task rest)"

text \<open>
  \<^verbatim>\<open>shuffle\<close> (lines 115 to 121). An index outside the slice panics in Go;
  \<^verbatim>\<open>rand.Intn(i + 1)\<close> never gives one.
\<close>

fun shuffleLoop :: "'w env \<Rightarrow> nat list \<Rightarrow> string list \<Rightarrow> (string list, 'w) prog" where
  "shuffleLoop E [] slice s = (Inr slice, s)"
| "shuffleLoop E (i # rest) slice s =
     (let (j, w) = randIntn E (i + 1) (world s);
          s1 = s\<lparr>world := w\<rparr>
      in if i < length slice \<and> j < length slice
         then shuffleLoop E rest (slice[i := slice ! j, j := slice ! i]) s1
         else (Inl Panic, s1))"

definition shuffle :: "'w env \<Rightarrow> string list \<Rightarrow> (string list, 'w) prog" where
  "shuffle E slice = shuffleLoop E [0..<length slice] slice"

text \<open>
  The loop of \<^verbatim>\<open>startBuildBoxes\<close> (lines 99 to 110) over the shuffled pool. It returns
  the boxes a task was started for, in order, and whether it left through the
  \<^verbatim>\<open>return\<close> of line 108.
\<close>

fun scanPool ::
  "'w env \<Rightarrow> int \<Rightarrow> string list \<Rightarrow> string list \<Rightarrow> (string list \<times> bool, 'w) prog" where
  "scanPool E boxesNeeded [] started s = (Inr (started, False), s)"
| "scanPool E boxesNeeded (buildBox # rest) started s =
     (case isNodeOffline E buildBox s of
        (Inl e, s1) \<Rightarrow> (Inl e, s1)
      | (Inr offl, s1) \<Rightarrow>
          (let boxesNeeded' = (if offl then boxesNeeded - 1 else boxesNeeded);
               started' = (if offl then started @ [buildBox] else started);
               s2 = (if offl then emit (Log (MoreBoxesNeeded boxesNeeded')) s1 else s1)
           in if boxesNeeded' \<le> 0 then (Inr (started', True), s2)
              else scanPool E boxesNeeded' rest started' s2))"

text \<open>
  \<^verbatim>\<open>startBuildBoxes\<close> (lines 94 to 113) returns the pool as the shuffle left it (the
  package variable \<^verbatim>\<open>buildBoxesPool\<close>).
\<close>

definition startBuildBoxes ::
  "'w env \<Rightarrow> nat \<Rightarrow> int \<Rightarrow> string list \<Rightarrow> int \<Rightarrow> (string list, 'w) prog" where
  "startBuildBoxes E fuel workers pool queueSize s =
     (case calculateNumberOfBoxesToStart workers queueSize of
        Inl e \<Rightarrow> (Inl e, s)
      | Inr boxesNeeded \<Rightarrow>
          andThen (say CheckingOffline) (\<lambda>_.
          andThen (shuffle E pool) (\<lambda>pool'.
          andThen (scanPool E boxesNeeded pool' []) (\<lambda>(started, returned).
          andThen (runTasks (startBuildBoxAsync E fuel) started) (\<lambda>_.
          if returned then ret pool'
          else andThen (say NoMoreBoxes) (\<lambda>_. ret pool'))))) s)"

definition stopBuildBoxes :: "'w env \<Rightarrow> nat \<Rightarrow> string list \<Rightarrow> (unit, 'w) prog" where
  "stopBuildBoxes E fuel pool =
     andThen (say CheckingIdle) (\<lambda>_. runTasks (stopBuildBoxAsync E fuel) pool)"

subsection \<open>The poll loop and the process\<close>

text \<open>The body of the loop of \<^verbatim>\<open>main\<close> (lines 72 to 83).\<close>

definition pollCycle ::
  "'w env \<Rightarrow> nat \<Rightarrow> int \<Rightarrow> string list \<Rightarrow> (string list, 'w) prog" where
  "pollCycle E fuel workers pool =
     andThen (fetchQueueSize E) (\<lambda>queueSize.
     andThen (say (QueueSizeIs queueSize)) (\<lambda>_.
     andThen (if queueSize > 0 then startBuildBoxes E fuel workers pool queueSize
              else andThen (stopBuildBoxes E fuel pool) (\<lambda>_. ret pool)) (\<lambda>pool'.
     andThen (say IterationFinished) (\<lambda>_.
     andThen (sleepFor E 8) (\<lambda>_. ret pool')))))"

text \<open>The loop never ends by itself; the model runs a given number of cycles of it.\<close>

fun pollLoop ::
  "'w env \<Rightarrow> nat \<Rightarrow> int \<Rightarrow> string list \<Rightarrow> nat \<Rightarrow> (string list, 'w) prog" where
  "pollLoop E fuel workers pool 0 = ret pool"
| "pollLoop E fuel workers pool (Suc cycles) =
     andThen (pollCycle E fuel workers pool) (\<lambda>pool'. pollLoop E fuel workers pool' cycles)"

subsection \<open>The command line\<close>

text \<open>
  The \<^verbatim>\<open>flag\<close> package keeps the variables of the flags it defines: \<^verbatim>\<open>flag.Int\<close> and
  \<^verbatim>\<open>flag.Bool\<close> allocate a variable holding the default and return its address, and
  \<^verbatim>\<open>flag.Parse\<close> stores the values of the command line in these variables. \<open>formal\<close>
  maps a flag's name to the address of its variable, \<open>heap\<close> is the variables by
  address, \<open>args\<close> is \<^verbatim>\<open>flag.Args()\<close>.
\<close>

datatype flagValue = IntValue int | BoolValue bool

record flagSet =
  formal :: "(string \<times> nat) list"
  heap :: "flagValue list"
  args :: "string list"

definition noFlags :: flagSet where
  "noFlags = \<lparr>formal = [], heap = [], args = []\<rparr>"

definition flag_Int :: "string \<Rightarrow> int \<Rightarrow> flagSet \<Rightarrow> nat \<times> flagSet" where
  "flag_Int name val fs =
     (length (heap fs),
      fs\<lparr>formal := formal fs @ [(name, length (heap fs))], heap := heap fs @ [IntValue val]\<rparr>)"

definition flag_Bool :: "string \<Rightarrow> bool \<Rightarrow> flagSet \<Rightarrow> nat \<times> flagSet" where
  "flag_Bool name val fs =
     (length (heap fs),
      fs\<lparr>formal := formal fs @ [(name, length (heap fs))], heap := heap fs @ [BoolValue val]\<rparr>)"

text \<open>Reading through a pointer: \<open>None\<close> where the address holds no such variable.\<close>

definition derefInt :: "nat \<Rightarrow> flagSet \<Rightarrow> int option" where
  "derefInt p fs =
     (if p < length (heap fs)
      then (case heap fs ! p of IntValue i \<Rightarrow> Some i | BoolValue _ \<Rightarrow> None)
      else None)"

definition derefBool :: "nat \<Rightarrow> flagSet \<Rightarrow> bool option" where
  "derefBool p fs =
     (if p < length (heap fs)
      then (case heap fs ! p of BoolValue b \<Rightarrow> Some b | IntValue _ \<Rightarrow> None)
      else None)"

record config =
  workersPerBuildBox :: int
  buildBoxesPool :: "string list"
  localCreds :: bool

text \<open>
  Lines 51 to 56 of \<^verbatim>\<open>main\<close>. \<open>workers0\<close> and \<open>pool0\<close> are the initial values of the
  package variables (2 and the seven boxes). \<open>parse\<close> is \<^verbatim>\<open>flag.Parse\<close> applied to the
  command line, whatever it does: \<open>Inl code\<close> when it ends the process. Line 51
  dereferences the pointer \<^verbatim>\<open>flag.Int\<close> returns at once, before line 53 parses.
\<close>

definition mainFlags ::
  "(string list \<Rightarrow> flagSet \<Rightarrow> nat + flagSet) \<Rightarrow> string list \<Rightarrow> int \<Rightarrow> string list
     \<Rightarrow> nat + config" where
  "mainFlags parse osArgs workers0 pool0 =
     (let (p, fs1) = flag_Int ''workersPerBuildBox'' workers0 noFlags
      in case derefInt p fs1 of
           None \<Rightarrow> Inl 2
         | Some workers \<Rightarrow>
             (let (localCredsP, fs2) = flag_Bool ''useLocalCreds'' False fs1
              in case parse osArgs fs2 of
                   Inl code \<Rightarrow> Inl code
                 | Inr fs3 \<Rightarrow>
                     (case derefBool localCredsP fs3 of
                        None \<Rightarrow> Inl 2
                      | Some creds \<Rightarrow>
                          Inr \<lparr>workersPerBuildBox = workers,
                               buildBoxesPool =
                                 (if length (args fs3) > 0 then args fs3 else pool0),
                               localCreds = creds\<rparr>)))"

definition initialWorkersPerBuildBox :: int where
  "initialWorkersPerBuildBox = 2"

definition initialBuildBoxesPool :: "string list" where
  "initialBuildBoxesPool =
     [''build1-api'', ''build2-api'', ''build3-api'', ''build4-api'', ''build5-api'',
      ''build6-api'', ''build7-api'']"

text \<open>
  The process. \<open>service\<close> tells whether the compute service could be made with the
  chosen credentials. A panic of the main goroutine is recovered by the deferred
  function of \<^verbatim>\<open>main\<close>, which logs it and exits with status 1; a panic of another
  goroutine ends the process with status 2.
\<close>

datatype ending = Exited nat | StillPolling

definition mainProcess ::
  "(string list \<Rightarrow> flagSet \<Rightarrow> nat + flagSet) \<Rightarrow> (bool \<Rightarrow> bool) \<Rightarrow> 'w env \<Rightarrow> nat \<Rightarrow> nat
     \<Rightarrow> string list \<Rightarrow> 'w state \<Rightarrow> ending \<times> 'w state" where
  "mainProcess parse service E fuel cycles osArgs s =
     (case mainFlags parse osArgs initialWorkersPerBuildBox initialBuildBoxesPool of
        Inl code \<Rightarrow> (Exited code, s)
      | Inr cfg \<Rightarrow>
          if \<not> service (localCreds cfg) then (Exited 0, emit (Log CredsError) s)
          else
            (case pollLoop E fuel (workersPerBuildBox cfg) (buildBoxesPool cfg) cycles s of
               (Inl Panic, s') \<Rightarrow> (Exited 1, emit (Log RecoveredPanic) s')
             | (Inl GoroutinePanic, s') \<Rightarrow> (Exited 2, s')
             | (Inl OutOfFuel, s') \<Rightarrow> (StillPolling, s')
             | (Inr _, s') \<Rightarrow> (StillPolling, s')))"

subsection \<open>A command-line parser to run the model on\<close>

text \<open>
  The theorems below hold for every \<open>parse\<close>. To run \<open>mainFlags\<close> on a command line,
  \<open>flagParse\<close> follows \<^verbatim>\<open>FlagSet.parseOne\<close> of Go's \<^verbatim>\<open>flag\<close> package for the two kinds
  of flags the program defines: \<^verbatim>\<open>-name=value\<close>, \<^verbatim>\<open>-name value\<close>, one or two dashes,
  a boolean flag without a value, \<^verbatim>\<open>--\<close> and the first argument that is no flag ending
  the flags. It reads integers in decimal only. An error ends the process with status 2,
  \<^verbatim>\<open>-h\<close> and \<^verbatim>\<open>-help\<close> with status 0.
\<close>

fun parseDigits :: "string \<Rightarrow> nat \<Rightarrow> nat option" where
  "parseDigits [] acc = Some acc"
| "parseDigits (c # cs) acc =
     (if c \<in> set ''0123456789''
      then parseDigits cs (10 * acc + (of_char c - 48))
      else None)"

definition parseInt :: "string \<Rightarrow> int option" where
  "parseInt str =
     (let v = (case str of
                 [] \<Rightarrow> None
               | c # cs \<Rightarrow>
                   if c = CHR ''-'' then
                     (if cs = [] then None else map_option (\<lambda>n. - int n) (parseDigits cs 0))
                   else if c = CHR ''+'' then
                     (if cs = [] then None else map_option int (parseDigits cs 0))
                   else map_option int (parseDigits str 0))
      in case v of
           None \<Rightarrow> None
         | Some i \<Rightarrow> if - (2 ^ 63) \<le> i \<and> i < 2 ^ 63 then Some i else None)"

definition parseBool :: "string \<Rightarrow> bool option" where
  "parseBool str =
     (if str \<in> set [''1'', ''t'', ''T'', ''TRUE'', ''true'', ''True''] then Some True
      else if str \<in> set [''0'', ''f'', ''F'', ''FALSE'', ''false'', ''False''] then Some False
      else None)"

fun flagParse :: "string list \<Rightarrow> flagSet \<Rightarrow> nat + flagSet" where
  "flagParse [] fs = Inr (fs\<lparr>args := []\<rparr>)"
| "flagParse (str # rest) fs =
     (if length str < 2 \<or> str ! 0 \<noteq> CHR ''-'' then Inr (fs\<lparr>args := str # rest\<rparr>)
      else if str = ''--'' then Inr (fs\<lparr>args := rest\<rparr>)
      else
        let name0 = (if str ! 1 = CHR ''-'' then drop 2 str else drop 1 str)
        in if name0 = [] \<or> hd name0 = CHR ''-'' \<or> hd name0 = CHR ''='' then Inl 2
           else
             let name = takeWhile (\<lambda>c. c \<noteq> CHR ''='') name0;
                 hasValue = (length name < length name0);
                 val = drop (length name + 1) name0
             in case map_of (formal fs) name of
                  None \<Rightarrow> if name = ''help'' \<or> name = ''h'' then Inl 0 else Inl 2
                | Some p \<Rightarrow>
                    if \<not> p < length (heap fs) then Inl 2
                    else
                      (case heap fs ! p of
                         BoolValue _ \<Rightarrow>
                           (case (if hasValue then parseBool val else Some True) of
                              None \<Rightarrow> Inl 2
                            | Some b \<Rightarrow>
                                flagParse rest (fs\<lparr>heap := (heap fs)[p := BoolValue b]\<rparr>))
                       | IntValue _ \<Rightarrow>
                           if hasValue then
                             (case parseInt val of
                                None \<Rightarrow> Inl 2
                              | Some i \<Rightarrow>
                                  flagParse rest (fs\<lparr>heap := (heap fs)[p := IntValue i]\<rparr>))
                           else
                             (case rest of
                                [] \<Rightarrow> Inl 2
                              | v # rest' \<Rightarrow>
                                  (case parseInt v of
                                     None \<Rightarrow> Inl 2
                                   | Some i \<Rightarrow>
                                       flagParse rest'
                                         (fs\<lparr>heap := (heap fs)[p := IntValue i]\<rparr>)))))"

subsection \<open>A small world to run the model in\<close>

text \<open>
  The theorems below hold for every environment. To run the model, \<open>sim\<close> is a CI
  master and a compute plane with a few switches: the CI master keeps the registration
  of each box and flips \<open>TemporarilyOffline\<close> on a toggle; an agent connects on a relaunch
  only when \<open>agentsBoot\<close> is set and the instance runs; a start or stop request that is
  accepted takes effect at once. With \<open>ciUp\<close> clear the pages of the nodes cannot be
  reached; \<open>queueReply\<close> is what a read of the queue gives. A box the CI master does not know answers with a body
  that does not decode, an instance the compute plane does not know is an error.
\<close>

record simWorld =
  nodes :: "(string \<times> JenkinsBuildBoxInfo) list"
  vms :: "(string \<times> string) list"
  queueReply :: "JenkinsQueue http_reply"
  ciUp :: bool
  togglesWork :: bool
  startsWork :: bool
  stopsWork :: bool
  agentsBoot :: bool

fun change :: "'k \<Rightarrow> ('v \<Rightarrow> 'v) \<Rightarrow> ('k \<times> 'v) list \<Rightarrow> ('k \<times> 'v) list" where
  "change k f [] = []"
| "change k f ((k', v) # kvs) = (if k' = k then (k', f v) # kvs else (k', v) # change k f kvs)"

definition sim :: "simWorld env" where
  "sim =
     \<lparr>getNodeInfo = (\<lambda>b w.
        (if \<not> ciUp w then DoFailed
         else case map_of (nodes w) b of None \<Rightarrow> Undecodable | Some i \<Rightarrow> Decoded i, w)),
      getQueue = (\<lambda>w. (queueReply w, w)),
      postToggleOffline = (\<lambda>b w.
        if togglesWork w
        then (True,
              w\<lparr>nodes := change b (\<lambda>i. i\<lparr>TemporarilyOffline := \<not> TemporarilyOffline i\<rparr>)
                            (nodes w)\<rparr>)
        else (False, w)),
      postLaunchSlaveAgent = (\<lambda>b w.
        if agentsBoot w \<and> map_of (vms w) b = Some ''RUNNING''
        then w\<lparr>nodes := change b (\<lambda>i. i\<lparr>Offline := False,
                                           ArchitectureMonitor := Some ''Linux (amd64)''\<rparr>)
                           (nodes w)\<rparr>
        else w),
      instancesGet = (\<lambda>b w. (map_of (vms w) b, w)),
      instancesStart = (\<lambda>b w.
        if startsWork w then (True, w\<lparr>vms := change b (\<lambda>_. ''RUNNING'') (vms w)\<rparr>)
        else (False, w)),
      instancesStop = (\<lambda>b w.
        if stopsWork w then (True, w\<lparr>vms := change b (\<lambda>_. ''TERMINATED'') (vms w)\<rparr>)
        else (False, w)),
      sleep = (\<lambda>n w. w),
      randIntn = (\<lambda>n w. (0, w))\<rparr>"

text \<open>Registrations and a start state to run from.\<close>

definition regInfo :: "bool \<Rightarrow> bool \<Rightarrow> bool \<Rightarrow> string option \<Rightarrow> JenkinsBuildBoxInfo" where
  "regInfo idle tempOffline offline monitor =
     \<lparr>Idle = idle, TemporarilyOffline = tempOffline, Offline = offline,
      ArchitectureMonitor = monitor\<rparr>"

definition simWorld0 :: simWorld where
  "simWorld0 =
     \<lparr>nodes = [], vms = [], queueReply = Decoded \<lparr>Items = []\<rparr>, ciUp = True,
      togglesWork = True, startsWork = True, stopsWork = True, agentsBoot = True\<rparr>"

definition startState :: "'w \<Rightarrow> 'w state" where
  "startState w = \<lparr>world = w, clock = 0, trace = []\<rparr>"

text \<open>The events a run added to the trace.\<close>

definition emitted :: "'w state \<Rightarrow> 'w state \<Rightarrow> event list" where
  "emitted s s' = drop (length (trace s)) (trace s')"

text \<open>A world of one box, \<^verbatim>\<open>build1-api\<close>, and some states of it to start from.\<close>

definition boxWorld :: "JenkinsBuildBoxInfo \<Rightarrow> string \<Rightarrow> simWorld" where
  "boxWorld info status =
     simWorld0\<lparr>nodes := [(''build1-api'', info)], vms := [(''build1-api'', status)]\<rparr>"

definition idleInMaintenance :: "simWorld state" where
  "idleInMaintenance = startState (boxWorld (regInfo True True True None) ''RUNNING'')"

definition idleTogglesFail :: "simWorld state" where
  "idleTogglesFail =
     startState ((boxWorld (regInfo True False False (Some ''Linux (amd64)'')) ''RUNNING'')
                   \<lparr>togglesWork := False\<rparr>)"

definition busyBox :: "simWorld state" where
  "busyBox = startState (boxWorld (regInfo False False False (Some ''Linux (amd64)'')) ''RUNNING'')"

text \<open>The CI master cannot be reached: for the queue, and for the pages of the nodes.\<close>

definition queueDown :: "simWorld state" where
  "queueDown = startState (simWorld0\<lparr>queueReply := DoFailed, ciUp := False\<rparr>)"

definition nodesDown :: "simWorld state" where
  "nodesDown =
     startState ((boxWorld (regInfo True False False (Some ''Linux (amd64)'')) ''RUNNING'')
                   \<lparr>ciUp := False\<rparr>)"

text \<open>
  A compute plane that answers the polls of an instance from a list, one answer for each
  poll, and with an error when the list is used up.
\<close>

definition scripted :: "string option list env" where
  "scripted =
     \<lparr>getNodeInfo = (\<lambda>b w. (Undecodable, w)),
      getQueue = (\<lambda>w. (Undecodable, w)),
      postToggleOffline = (\<lambda>b w. (True, w)),
      postLaunchSlaveAgent = (\<lambda>b w. w),
      instancesGet = (\<lambda>b w. case w of [] \<Rightarrow> (None, []) | r # rs \<Rightarrow> (r, rs)),
      instancesStart = (\<lambda>b w. (True, w)),
      instancesStop = (\<lambda>b w. (True, w)),
      sleep = (\<lambda>n w. w),
      randIntn = (\<lambda>n w. (0, w))\<rparr>"

definition stoppingThenTerminated :: "string option list state" where
  "stoppingThenTerminated =
     startState [Some ''STOPPING'', None, Some ''STOPPING'', Some ''TERMINATED'']"


text \<open>An offline box whose instance is stopped, with a compute plane that refuses to start it.\<close>

definition offlineStartsFail :: "simWorld state" where
  "offlineStartsFail =
     startState ((boxWorld (regInfo True False True None) ''TERMINATED'')
                   \<lparr>startsWork := False\<rparr>)"

subsection \<open>Events by kind\<close>

text \<open>
  The commands are the events that ask a collaborator to change something. The lists
  below are what a read of a node, a toggle and a look at an instance add to the trace.
\<close>

fun isCommand :: "event \<Rightarrow> bool" where
  "isCommand (ToggleNodeStatus _ _ _) = True"
| "isCommand (LaunchSlaveAgentPost _) = True"
| "isCommand (InstancesStart _ _) = True"
| "isCommand (InstancesStop _ _) = True"
| "isCommand _ = False"

definition infoEvents :: "string \<Rightarrow> JenkinsBuildBoxInfo http_reply \<Rightarrow> event list" where
  "infoEvents b r = NodeInfoGet b r # (if r = Undecodable then [Log (NodeInfoUndecodable b)] else [])"

definition toggleEvents :: "string \<Rightarrow> string \<Rightarrow> bool \<Rightarrow> event list" where
  "toggleEvents b m ok = ToggleNodeStatus b m ok # (if ok then [Log (WasToggled b m)] else [])"

definition runningEvents :: "string \<Rightarrow> string option \<Rightarrow> event list" where
  "runningEvents b r = InstancesGet b r # (if r = None then [Log GetInstanceFailed] else [])"

fun isStop :: "event \<Rightarrow> bool" where
  "isStop (InstancesStop _ _) = True"
| "isStop _ = False"


text \<open>
  What the status waiter saw and what it logged: the statuses of the polls that were
  answered, in order, and the statuses of the lines that report a change.
\<close>

fun observedStatus :: "event \<Rightarrow> string option" where
  "observedStatus (InstancesGet _ (Some st)) = Some st"
| "observedStatus _ = None"

fun changeLogged :: "event \<Rightarrow> string option" where
  "changeLogged (Log (StatusChanged _ st)) = Some st"
| "changeLogged _ = None"

fun isPoll :: "event \<Rightarrow> bool" where
  "isPoll (InstancesGet _ _) = True"
| "isPoll _ = False"

fun isFailedPoll :: "event \<Rightarrow> bool" where
  "isFailedPoll (InstancesGet _ None) = True"
| "isFailedPoll _ = False"

fun isFailureLog :: "event \<Rightarrow> bool" where
  "isFailureLog (Log (GetInstanceFailedFor _)) = True"
| "isFailureLog _ = False"

definition observed :: "event list \<Rightarrow> string list" where
  "observed es = List.map_filter observedStatus es"

definition changes :: "event list \<Rightarrow> string list" where
  "changes es = List.map_filter changeLogged es"

subsection \<open>A trace against the collaborators\<close>

text \<open>
  \<open>replay E es w\<close> runs the events \<open>es\<close> against the collaborators \<open>E\<close> from the world
  \<open>w\<close>: it calls what each event says was called, in order, and gives the world after
  the last one when every call answered what the event recorded, \<open>None\<close> as soon as one
  did not. A trace that replays is what the collaborators did answer.
  \<open>elapsed\<close> is the time slept.
\<close>

fun replay :: "'w env \<Rightarrow> event list \<Rightarrow> 'w \<Rightarrow> 'w option" where
  "replay E [] w = Some w"
| "replay E (Log m # es) w = replay E es w"
| "replay E (NodeInfoGet b r # es) w =
     (if fst (getNodeInfo E b w) = r then replay E es (snd (getNodeInfo E b w)) else None)"
| "replay E (QueueGet r # es) w =
     (if fst (getQueue E w) = r then replay E es (snd (getQueue E w)) else None)"
| "replay E (ToggleNodeStatus b m ok # es) w =
     (if fst (postToggleOffline E b w) = ok then replay E es (snd (postToggleOffline E b w))
      else None)"
| "replay E (LaunchSlaveAgentPost b # es) w = replay E es (postLaunchSlaveAgent E b w)"
| "replay E (InstancesGet b r # es) w =
     (if fst (instancesGet E b w) = r then replay E es (snd (instancesGet E b w)) else None)"
| "replay E (InstancesStart b ok # es) w =
     (if fst (instancesStart E b w) = ok then replay E es (snd (instancesStart E b w))
      else None)"
| "replay E (InstancesStop b ok # es) w =
     (if fst (instancesStop E b w) = ok then replay E es (snd (instancesStop E b w))
      else None)"
| "replay E (Slept n # es) w = replay E es (sleep E n w)"

fun elapsed :: "event list \<Rightarrow> nat" where
  "elapsed [] = 0"
| "elapsed (Slept n # es) = n + elapsed es"
| "elapsed (e # es) = elapsed es"

text \<open>
  The specification of the status waiter: \<^emph>\<open>repeatedly (interval 3 time units) fetch
  instance power state; log only on state change; return once target state is reached. On
  a transient query error, log and retry\<close>. \<open>specWaiterEvents b target previous replies\<close>
  is what these words ask the waiter of box \<open>b\<close> to do when the compute plane gives
  \<open>replies\<close> to its polls, \<open>None\<close> being an error: an error is logged and followed by the
  next poll; a status is logged when it differs from the \<open>previous\<close> one; the target is
  announced; after any other status the waiter sleeps 3 seconds.
\<close>

fun specWaiterEvents :: "string \<Rightarrow> string \<Rightarrow> string \<Rightarrow> string option list \<Rightarrow> event list" where
  "specWaiterEvents b target previous [] = []"
| "specWaiterEvents b target previous (None # replies) =
     InstancesGet b None # Log (GetInstanceFailedFor b)
       # specWaiterEvents b target previous replies"
| "specWaiterEvents b target previous (Some st # replies) =
     InstancesGet b (Some st)
       # (if st \<noteq> previous then [Log (StatusChanged b st)] else [])
       @ (if st = target then [Log (StatusReached b target)] else [Slept 3])
       @ specWaiterEvents b target st replies"

text \<open>
  A run is faithful to the collaborators when the events it added replay against them
  from the world it started in to the world it ended in, and its clock moved by the time
  slept.
\<close>

definition faithful :: "'w env \<Rightarrow> 'w state \<Rightarrow> 'w state \<Rightarrow> bool" where
  "faithful E s s' \<longleftrightarrow>
     (\<exists>new. trace s' = trace s @ new \<and> replay E new (world s) = Some (world s')
        \<and> clock s' = clock s + elapsed new)"

text \<open>
  The events of the stop step of take-offline for box \<open>b\<close>: the look at the instance, and
  when it is reported \<^verbatim>\<open>RUNNING\<close> the line that says so, the stop request and what
  follows it, which holds no further command.
\<close>

fun isToggle :: "event \<Rightarrow> bool" where
  "isToggle (ToggleNodeStatus _ _ _) = True"
| "isToggle _ = False"

definition stopStep :: "string \<Rightarrow> event list \<Rightarrow> bool" where
  "stopStep b es \<longleftrightarrow>
     (\<exists>g. g \<noteq> Some ''RUNNING'' \<and> es = runningEvents b g)
     \<or> (\<exists>ok W. es = InstancesGet b (Some ''RUNNING'') # Log (IsRunningStopping b)
                       # InstancesStop b ok # W
               \<and> (\<forall>e\<in>set W. \<not> isCommand e))"

subsection \<open>The scan of the pool\<close>



fun neededLogged :: "event \<Rightarrow> int option" where
  "neededLogged (Log (MoreBoxesNeeded m)) = Some m"
| "neededLogged _ = None"

fun nodeRead :: "event \<Rightarrow> (string \<times> JenkinsBuildBoxInfo http_reply) option" where
  "nodeRead (NodeInfoGet b r) = Some (b, r)"
| "nodeRead _ = None"

definition neededLogs :: "event list \<Rightarrow> int list" where
  "neededLogs es = List.map_filter neededLogged es"

definition readsOf :: "event list \<Rightarrow> (string \<times> JenkinsBuildBoxInfo http_reply) list" where
  "readsOf es = List.map_filter nodeRead es"

subsection \<open>The steps of bring-online\<close>

text \<open>
  \<open>agentVerdict b x\<close>: the event \<open>x\<close> settles the wait for the agent of box \<open>b\<close>. It is a
  read of the node that reports the agent connected (the monitor field is there), or
  the line the launcher logs when its 120 seconds are over. An event is \<open>plain\<close> when it
  is no toggle and no start request.
\<close>

fun isStart :: "event \<Rightarrow> bool" where
  "isStart (InstancesStart _ _) = True"
| "isStart _ = False"

fun isOnlineToggle :: "event \<Rightarrow> bool" where
  "isOnlineToggle (ToggleNodeStatus _ m _) = (m = ''online'')"
| "isOnlineToggle _ = False"

definition agentVerdict :: "string \<Rightarrow> event \<Rightarrow> bool" where
  "agentVerdict b x \<longleftrightarrow>
     x = Log (DidNotComeOnline b)
     \<or> (\<exists>d. x = NodeInfoGet b (Decoded d) \<and> ArchitectureMonitor d \<noteq> None)"

definition plain :: "event \<Rightarrow> bool" where
  "plain e \<longleftrightarrow> \<not> isToggle e \<and> \<not> isStart e"

text \<open>
  The events \<open>S\<close> of the start step of bring-online, with the events \<open>A\<close> of the agent
  step that follows: the look at the instance and nothing more, or a start request that
  was refused, its line in the log and then the agent step, which begins with a read of
  the node, or a start request that was accepted and the wait for the instance.
  The events \<open>F\<close> of the last step, after the events \<open>A\<close>: when the transition returns,
  \<open>A\<close> ends with a verdict on the agent, and \<open>F\<close> is the read of the maintenance flag
  and, exactly when it is reported set, the toggle to \<^verbatim>\<open>"online"\<close>.
\<close>

definition startStep :: "string \<Rightarrow> event list \<Rightarrow> event list \<Rightarrow> bool" where
  "startStep b S A \<longleftrightarrow>
     (\<forall>e\<in>set S. plain e)
     \<or> (\<exists>g r A'. S = runningEvents b g @ [InstancesStart b False, Log StartRequestFailed]
           \<and> A = NodeInfoGet b r # A')
     \<or> (\<exists>g W. S = runningEvents b g @ InstancesStart b True # W \<and> (\<forall>e\<in>set W. plain e))"

definition onlineStep :: "string \<Rightarrow> failure + unit \<Rightarrow> event list \<Rightarrow> event list \<Rightarrow> bool" where
  "onlineStep b res A F \<longleftrightarrow>
     res \<noteq> Inr () \<and> (\<forall>e\<in>set F. plain e)
     \<or> res = Inr ()
       \<and> (\<exists>A' x rf Fin. A = A' @ [x] \<and> agentVerdict b x \<and> F = infoEvents b rf @ Fin
            \<and> ((\<exists>d. rf = Decoded d \<and> TemporarilyOffline d)
                  \<and> (\<exists>ok. Fin = toggleEvents b ''online'' ok)
               \<or> (rf = Undecodable \<or> (\<exists>d. rf = Decoded d \<and> \<not> TemporarilyOffline d))
                  \<and> Fin = []))"

section \<open>The capacity rule is ceiling division\<close>

lemma go_quot_nonneg: "0 \<le> a \<Longrightarrow> 0 < b \<Longrightarrow> go_quot a b = a div b"
  by (cases "a = 0") (simp_all add: go_quot_def)

lemma go_rem_nonneg: "0 \<le> a \<Longrightarrow> 0 < b \<Longrightarrow> go_rem a b = a mod b"
  by (simp add: go_rem_def go_quot_nonneg minus_mult_div_eq_mod)

lemma ceiling_div_split:
  fixes q w :: int
  assumes "0 < w"
  shows "\<lceil>real_of_int q / real_of_int w\<rceil> = q div w + (if q mod w \<noteq> 0 then 1 else 0)"
proof -
  have "\<lceil>real_of_int q / real_of_int w\<rceil> = - ((- q) div w)"
    by (rule ceiling_divide_eq_div)
  also have "\<dots> = q div w + (if q mod w \<noteq> 0 then 1 else 0)"
    using assms by (simp add: zdiv_zminus1_eq_if)
  finally show ?thesis .
qed

text \<open>
  C1. For every queue size \<open>q \<ge> 0\<close> and every number of workers per build box
  \<open>w \<ge> 1\<close>, \<^verbatim>\<open>calculateNumberOfBoxesToStart\<close> returns the ceiling of \<open>q / w\<close>
  (it does not panic). The result lies between 0 and \<open>q\<close>, so it is in the range of
  Go's \<^verbatim>\<open>int\<close> whenever \<open>q\<close> is, and the unbounded integers of the model lose nothing.
\<close>

theorem calculateNumberOfBoxesToStart_ceiling:
  assumes "0 \<le> q" and "1 \<le> w"
  shows "calculateNumberOfBoxesToStart w q = Inr \<lceil>real_of_int q / real_of_int w\<rceil>
         \<and> 0 \<le> \<lceil>real_of_int q / real_of_int w\<rceil>
         \<and> \<lceil>real_of_int q / real_of_int w\<rceil> \<le> q"
proof -
  have w: "0 < w" using assms by simp
  have c: "\<lceil>real_of_int q / real_of_int w\<rceil> = q div w + (if q mod w \<noteq> 0 then 1 else 0)"
    using w by (rule ceiling_div_split)
  have r: "calculateNumberOfBoxesToStart w q = Inr \<lceil>real_of_int q / real_of_int w\<rceil>"
    using assms w by (simp add: calculateNumberOfBoxesToStart_def c go_quot_nonneg go_rem_nonneg)
  have lo: "0 \<le> q div w + (if q mod w \<noteq> 0 then 1 else 0)"
    using assms w by (simp add: pos_imp_zdiv_nonneg_iff)
  have hi: "q div w + (if q mod w \<noteq> 0 then 1 else 0) \<le> q"
  proof (cases "q mod w = 0")
    case True
    have "q div w \<le> q" using assms w zdiv_mono2 [of q 1 w] by simp
    with True show ?thesis by simp
  next
    case False
    then have "w \<noteq> 1" by auto
    with assms have w2: "2 \<le> w" by simp
    from False have "q \<noteq> 0" by auto
    with assms have q1: "1 \<le> q" by simp
    have "q div w \<le> q div 2" using assms w2 by (simp add: zdiv_mono2)
    also have "\<dots> < q" using q1 by simp
    finally show ?thesis using False by simp
  qed
  show ?thesis using r lo hi by (simp add: c)
qed

theorem calculateNumberOfBoxesToStart_examples:
  "calculateNumberOfBoxesToStart 2 5 = Inr 3
   \<and> calculateNumberOfBoxesToStart 2 4 = Inr 2
   \<and> calculateNumberOfBoxesToStart 2 0 = Inr 0"
proof -
  have a: "calculateNumberOfBoxesToStart 2 5 = Inr \<lceil>real_of_int 5 / real_of_int 2\<rceil>"
    using calculateNumberOfBoxesToStart_ceiling [of 5 2] by simp
  have b: "calculateNumberOfBoxesToStart 2 4 = Inr \<lceil>real_of_int 4 / real_of_int 2\<rceil>"
    using calculateNumberOfBoxesToStart_ceiling [of 4 2] by simp
  have c: "calculateNumberOfBoxesToStart 2 0 = Inr \<lceil>real_of_int 0 / real_of_int 2\<rceil>"
    using calculateNumberOfBoxesToStart_ceiling [of 0 2] by simp
  have v: "\<lceil>real_of_int 5 / real_of_int 2\<rceil> = 3" "\<lceil>real_of_int 4 / real_of_int 2\<rceil> = 2"
    "\<lceil>real_of_int 0 / real_of_int 2\<rceil> = 0"
    by (simp_all add: ceiling_div_split)
  show ?thesis using a b c v by simp
qed

section \<open>The workers flag is read before the command line is parsed\<close>

lemma derefInt_flag_Int:
  "flag_Int name val fs = (p, fs') \<Longrightarrow> derefInt p fs' = Some val"
  by (auto simp: flag_Int_def derefInt_def nth_append)

text \<open>
  C10. The flag \<^verbatim>\<open>workersPerBuildBox\<close> has no effect. Line 51 reads the variable of the
  flag before line 53 parses the command line, so whatever \<^verbatim>\<open>flag.Parse\<close> does with
  whatever command line, when \<^verbatim>\<open>main\<close> gets past it the package variable holds the
  value it was declared with, 2, and that is the divisor the poll loop is run with.
\<close>

theorem workersPerBuildBox_flag_has_no_effect:
  assumes "mainFlags parse osArgs initialWorkersPerBuildBox pool0 = Inr cfg"
  shows "workersPerBuildBox cfg = 2"
proof -
  obtain p fs1 where f: "flag_Int ''workersPerBuildBox'' initialWorkersPerBuildBox noFlags = (p, fs1)"
    by (cases "flag_Int ''workersPerBuildBox'' initialWorkersPerBuildBox noFlags")
  have d: "derefInt p fs1 = Some initialWorkersPerBuildBox"
    using f by (rule derefInt_flag_Int)
  from assms f d have "workersPerBuildBox cfg = initialWorkersPerBuildBox"
    by (auto simp: mainFlags_def Let_def split: prod.splits sum.splits option.splits)
  then show ?thesis by (simp add: initialWorkersPerBuildBox_def)
qed

lemma flagParse_sets_5:
  "flagParse [''-workersPerBuildBox=5'', ''boxA'']
     (snd (flag_Bool ''useLocalCreds'' False
        (snd (flag_Int ''workersPerBuildBox'' initialWorkersPerBuildBox noFlags))))
   = Inr \<lparr>formal = [(''workersPerBuildBox'', 0), (''useLocalCreds'', 1)],
          heap = [IntValue 5, BoolValue False], args = [''boxA'']\<rparr>"
  by (simp add: flag_Int_def flag_Bool_def noFlags_def initialWorkersPerBuildBox_def
      parseInt_def Let_def)

lemma mainFlags_sample:
  "mainFlags flagParse [''-workersPerBuildBox=5'', ''boxA''] initialWorkersPerBuildBox
     initialBuildBoxesPool
   = Inr \<lparr>workersPerBuildBox = 2, buildBoxesPool = [''boxA''], localCreds = False\<rparr>"
  by (simp add: mainFlags_def flag_Int_def flag_Bool_def noFlags_def derefInt_def
      derefBool_def initialWorkersPerBuildBox_def parseInt_def Let_def)

theorem workersPerBuildBox_flag_has_no_effect_witness:
  "mainFlags flagParse [''-workersPerBuildBox=5'', ''boxA''] initialWorkersPerBuildBox
     initialBuildBoxesPool
   = Inr \<lparr>workersPerBuildBox = 2, buildBoxesPool = [''boxA''], localCreds = False\<rparr>
   \<and> workersPerBuildBox
       \<lparr>workersPerBuildBox = 2, buildBoxesPool = [''boxA''], localCreds = False\<rparr> = 2
   \<and> flagParse [''-workersPerBuildBox=5'', ''boxA'']
       (snd (flag_Bool ''useLocalCreds'' False
          (snd (flag_Int ''workersPerBuildBox'' initialWorkersPerBuildBox noFlags))))
     = Inr \<lparr>formal = [(''workersPerBuildBox'', 0), (''useLocalCreds'', 1)],
            heap = [IntValue 5, BoolValue False], args = [''boxA'']\<rparr>"
proof (intro conjI)
  show "mainFlags flagParse [''-workersPerBuildBox=5'', ''boxA''] initialWorkersPerBuildBox
          initialBuildBoxesPool
        = Inr \<lparr>workersPerBuildBox = 2, buildBoxesPool = [''boxA''], localCreds = False\<rparr>"
    by (rule mainFlags_sample)
  show "workersPerBuildBox
          \<lparr>workersPerBuildBox = 2, buildBoxesPool = [''boxA''], localCreds = False\<rparr> = 2"
    by (rule workersPerBuildBox_flag_has_no_effect [OF mainFlags_sample])
  show "flagParse [''-workersPerBuildBox=5'', ''boxA'']
          (snd (flag_Bool ''useLocalCreds'' False
             (snd (flag_Int ''workersPerBuildBox'' initialWorkersPerBuildBox noFlags))))
        = Inr \<lparr>formal = [(''workersPerBuildBox'', 0), (''useLocalCreds'', 1)],
               heap = [IntValue 5, BoolValue False], args = [''boxA'']\<rparr>"
    by (rule flagParse_sets_5)
qed

section \<open>What a run adds to the trace\<close>

lemma andThen_cases:
  assumes "andThen m f s = (res, s'')"
  obtains (failed) e where "m s = (Inl e, s'')" "res = Inl e"
        | (went) x s' where "m s = (Inr x, s')" "f x s' = (res, s'')"
  using assms by (auto simp: andThen_def split: prod.splits sum.splits)

lemma fetch_field:
  assumes "andThen (fetchNodeInfo E b) (\<lambda>d. ret (f d)) s = (res, s')"
  shows "\<exists>r. trace s' = trace s @ infoEvents b r \<and> clock s' = clock s \<and>
    ((r = DoFailed \<and> res = Inl Panic) \<or> (r = Undecodable \<and> res = Inr (f zeroInfo))
       \<or> (\<exists>d. r = Decoded d \<and> res = Inr (f d)))"
proof -
  obtain r w where g: "getNodeInfo E b (world s) = (r, w)"
    by (cases "getNodeInfo E b (world s)")
  show ?thesis
  proof (cases r)
    case DoFailed
    with assms g show ?thesis
      by (intro exI [of _ DoFailed])
         (simp add: andThen_def fetchNodeInfo_def ret_def emit_def infoEvents_def, auto)
  next
    case Undecodable
    with assms g show ?thesis
      by (intro exI [of _ Undecodable])
         (simp add: andThen_def fetchNodeInfo_def ret_def emit_def infoEvents_def, auto)
  next
    case (Decoded d)
    with assms g show ?thesis
      by (intro exI [of _ "Decoded d"])
         (simp add: andThen_def fetchNodeInfo_def ret_def emit_def infoEvents_def, auto)
  qed
qed

lemma toggleNodeStatus_run:
  assumes "toggleNodeStatus E b m s = (res, s')"
  shows "\<exists>ok. res = Inr ok \<and> trace s' = trace s @ toggleEvents b m ok \<and> clock s' = clock s"
proof -
  obtain ok w where g: "postToggleOffline E b (world s) = (ok, w)"
    by (cases "postToggleOffline E b (world s)")
  with assms show ?thesis
    by (intro exI [of _ ok]) (cases ok; simp add: toggleNodeStatus_def emit_def toggleEvents_def, auto)
qed

lemma isBuildBoxRunning_run:
  assumes "isBuildBoxRunning E b s = (res, s')"
  shows "\<exists>r. res = Inr (r = Some ''RUNNING'') \<and> trace s' = trace s @ runningEvents b r \<and>
    clock s' = clock s"
proof -
  obtain r w where g: "instancesGet E b (world s) = (r, w)"
    by (cases "instancesGet E b (world s)")
  with assms show ?thesis
    by (intro exI [of _ r]) (cases r; simp add: isBuildBoxRunning_def emit_def runningEvents_def, auto)
qed

lemma waitLoop_trace:
  "waitLoop E b st prev fuel s = (res, s') \<Longrightarrow>
   \<exists>W. trace s' = trace s @ W \<and> (\<forall>e\<in>set W. \<not> isCommand e)"
proof (induction fuel arbitrary: s prev)
  case 0
  then show ?case by simp
next
  case (Suc fuel)
  obtain r w where g: "instancesGet E b (world s) = (r, w)" by (cases "instancesGet E b (world s)")
  show ?case
  proof (cases r)
    case None
    with Suc.prems g have "waitLoop E b st prev fuel
        (emit (Log (GetInstanceFailedFor b)) (emit (InstancesGet b None) (s\<lparr>world := w\<rparr>))) = (res, s')"
      by simp
    from Suc.IH [OF this] show ?thesis by (auto simp: emit_def)
  next
    case (Some x)
    show ?thesis
    proof (cases "x = st")
      case True
      with Suc.prems g Some show ?thesis by (auto simp: emit_def Let_def)
    next
      case False
      with Suc.prems g Some obtain s2 p where "waitLoop E b st p fuel s2 = (res, s')"
        and "\<exists>W. trace s2 = trace s @ W \<and> (\<forall>e\<in>set W. \<not> isCommand e)"
        by (auto simp: emit_def Let_def sleepFor_def split: if_splits)
      with Suc.IH [of p s2] show ?thesis by auto
    qed
  qed
qed

lemma stopBuildBox_run:
  assumes "stopBuildBox E fuel b s = (res, s')"
  obtains ok W where "trace s' = trace s @ InstancesStop b ok # W" "\<forall>e\<in>set W. \<not> isCommand e"
proof -
  obtain ok w where g: "instancesStop E b (world s) = (ok, w)" by (cases "instancesStop E b (world s)")
  show thesis
  proof (cases ok)
    case False
    with assms g have "trace s' = trace s @ InstancesStop b ok # [Log StopRequestFailed]"
      by (auto simp: stopBuildBox_def andThen_def say_def ret_def emit_def)
    then show ?thesis using that by simp
  next
    case True
    with assms g obtain r s1 where
      "waitLoop E b ''TERMINATED'' [] fuel (emit (InstancesStop b ok) (s\<lparr>world := w\<rparr>)) = (r, s')"
      by (auto simp: stopBuildBox_def waitForStatus_def andThen_def ret_def split: prod.splits sum.splits)
    from waitLoop_trace [OF this] show ?thesis using that by (auto simp: emit_def)
  qed
qed



lemma andThen_ret_unit:
  assumes "andThen m (\<lambda>_. ret ()) s = (res, s')"
  shows "\<exists>r. m s = (r, s')"
  using assms by (auto simp: andThen_def ret_def split: prod.splits sum.splits)

lemma ensureBuildBoxIsNotRunning_run:
  assumes "ensureBuildBoxIsNotRunning E fuel b s = (res, s')"
  shows "(\<exists>r. r \<noteq> Some ''RUNNING'' \<and> res = Inr () \<and> trace s' = trace s @ runningEvents b r)
       \<or> (\<exists>ok W. trace s' = trace s @ [InstancesGet b (Some ''RUNNING''), Log (IsRunningStopping b),
                                     InstancesStop b ok] @ W
                 \<and> (\<forall>e\<in>set W. \<not> isCommand e))"
  using assms unfolding ensureBuildBoxIsNotRunning_def
proof (cases rule: andThen_cases)
  case (failed e)
  from isBuildBoxRunning_run [OF failed(1)] show ?thesis by simp
next
  case (went running s1)
  from isBuildBoxRunning_run [OF went(1)] obtain r where r: "running = (r = Some ''RUNNING'')"
    "trace s1 = trace s @ runningEvents b r"
    by auto
  show ?thesis
  proof (cases running)
    case False
    with went(2) r show ?thesis by (auto simp: ret_def)
  next
    case True
    with went(2) have
      "andThen (stopBuildBox E fuel b) (\<lambda>_. ret ()) (emit (Log (IsRunningStopping b)) s1) = (res, s')"
      by (simp add: andThen_def say_def)
    from andThen_ret_unit [OF this] obtain r3 where
      "stopBuildBox E fuel b (emit (Log (IsRunningStopping b)) s1) = (r3, s')" ..
    then obtain ok W where "trace s' = trace (emit (Log (IsRunningStopping b)) s1) @ InstancesStop b ok # W"
      "\<forall>e\<in>set W. \<not> isCommand e"
      by (rule stopBuildBox_run)
    with True r have "trace s' = trace s @ [InstancesGet b (Some ''RUNNING''), Log (IsRunningStopping b),
                                     InstancesStop b ok] @ W \<and> (\<forall>e\<in>set W. \<not> isCommand e)"
      by (simp add: emit_def runningEvents_def)
    then show ?thesis by blast
  qed
qed

lemma split_unique:
  assumes "xs @ x # ys = pre @ y # post" and "P y"
    and "\<forall>e\<in>set xs. \<not> P e" and "\<forall>e\<in>set ys. \<not> P e"
  shows "pre = xs \<and> y = x \<and> post = ys"
  using assms
proof (induction xs arbitrary: pre)
  case Nil
  show ?case
  proof (cases pre)
    case Nil
    with Nil.prems show ?thesis by simp
  next
    case (Cons p pre')
    with Nil.prems have "y \<in> set ys" by auto
    with Nil.prems show ?thesis by blast
  qed
next
  case (Cons a xs)
  show ?case
  proof (cases pre)
    case Nil
    with Cons.prems show ?thesis by auto
  next
    case (Cons p pre')
    with Cons.prems Cons.IH [of pre'] show ?thesis by auto
  qed
qed

lemma no_split:
  assumes "xs = pre @ y # post" and "P y" and "\<forall>e\<in>set xs. \<not> P e"
  shows False
  using assms by auto


lemma isStop_isCommand: "isStop e \<Longrightarrow> isCommand e"
  by (cases e) simp_all

lemma quiet_events [simp]:
  "\<forall>e\<in>set (infoEvents b r). \<not> isStop e"
  "\<forall>e\<in>set (toggleEvents b m ok). \<not> isStop e"
  "\<forall>e\<in>set (runningEvents b g). \<not> isStop e"
  by (simp_all add: infoEvents_def toggleEvents_def runningEvents_def)

lemma maintenance_step_run:
  assumes "(if \<not> t
            then andThen (say (NotOfflineTogglingOffline b)) (\<lambda>_.
                 andThen (toggleNodeStatus E b ''offline'') (\<lambda>_. ret ()))
            else ret ()) s = (res, s')"
  shows "\<exists>M. trace s' = trace s @ M \<and> (\<forall>e\<in>set M. \<not> isStop e)
           \<and> (t \<or> (\<exists>ok. ToggleNodeStatus b ''offline'' ok \<in> set M))"
proof (cases t)
  case True
  with assms show ?thesis by (simp add: ret_def)
next
  case False
  with assms have "andThen (toggleNodeStatus E b ''offline'') (\<lambda>_. ret ())
      (emit (Log (NotOfflineTogglingOffline b)) s) = (res, s')"
    by (simp add: andThen_def say_def)
  from andThen_ret_unit [OF this] obtain r where
    "toggleNodeStatus E b ''offline'' (emit (Log (NotOfflineTogglingOffline b)) s) = (r, s')" ..
  from toggleNodeStatus_run [OF this] obtain ok where
    "trace s' = trace s @ Log (NotOfflineTogglingOffline b) # toggleEvents b ''offline'' ok"
    by (auto simp: emit_def)
  then show ?thesis
    by (intro exI [of _ "Log (NotOfflineTogglingOffline b) # toggleEvents b ''offline'' ok"])
       (auto simp: toggleEvents_def)
qed

lemma stopBuildBoxAsync_shape:
  assumes "stopBuildBoxAsync E fuel b s = (res, s')"
  shows "\<exists>A B. trace s' = trace s @ A @ B \<and> (\<forall>e\<in>set A. \<not> isStop e)
     \<and> ((\<forall>e\<in>set B. \<not> isStop e) \<or>
        (((\<exists>ok. ToggleNodeStatus b ''offline'' ok \<in> set A)
            \<or> (\<exists>d. NodeInfoGet b (Decoded d) \<in> set A \<and> TemporarilyOffline d))
         \<and> (\<exists>ok W. B = [InstancesGet b (Some ''RUNNING''), Log (IsRunningStopping b),
                         InstancesStop b ok] @ W
                   \<and> (\<forall>e\<in>set W. \<not> isCommand e))))"
  using assms unfolding stopBuildBoxAsync_def isNodeIdle_def
proof (cases rule: andThen_cases)
  case (failed e)
  from fetch_field [OF failed(1)] obtain r where t0: "trace s' = trace s @ infoEvents b r" by auto
  show ?thesis
    by (rule exI [of _ "infoEvents b r"], rule exI [of _ "[]"]) (use t0 in \<open>simp add: ball_Un\<close>)
next
  case (went idle s1)
  from fetch_field [OF went(1)] obtain r1 where t1: "trace s1 = trace s @ infoEvents b r1" by auto
  show ?thesis
  proof (cases idle)
    case False
    with went(2) have e1: "s' = s1" by (simp add: ret_def)
    show ?thesis
      by (rule exI [of _ "infoEvents b r1"], rule exI [of _ "[]"]) (use t1 e1 in \<open>simp add: ball_Un\<close>)
  next
    case True
    with went(2) have "andThen (andThen (fetchNodeInfo E b) (\<lambda>d. ret (TemporarilyOffline d)))
        (\<lambda>tempOffline.
           andThen (if \<not> tempOffline
                    then andThen (say (NotOfflineTogglingOffline b)) (\<lambda>_.
                         andThen (toggleNodeStatus E b ''offline'') (\<lambda>_. ret ()))
                    else ret ()) (\<lambda>_. ensureBuildBoxIsNotRunning E fuel b)) s1 = (res, s')"
      by (simp add: isNodeTemporarilyOffline_def)
    then show ?thesis
    proof (cases rule: andThen_cases)
      case (failed e)
      from fetch_field [OF failed(1)] obtain r2 where t2: "trace s' = trace s1 @ infoEvents b r2" by auto
      show ?thesis
        by (rule exI [of _ "infoEvents b r1 @ infoEvents b r2"], rule exI [of _ "[]"]) (use t1 t2 in \<open>simp add: ball_Un\<close>)
    next
      case (went t s2)
      from fetch_field [OF went(1)] obtain r2 where t2: "trace s2 = trace s1 @ infoEvents b r2"
        and v: "(r2 = Undecodable \<and> t = TemporarilyOffline zeroInfo)
                 \<or> (\<exists>d. r2 = Decoded d \<and> t = TemporarilyOffline d)"
        by auto
      from v have seen: "t \<longrightarrow> (\<exists>d. NodeInfoGet b (Decoded d) \<in> set (infoEvents b r2)
                                 \<and> TemporarilyOffline d)"
        by (auto simp: zeroInfo_def infoEvents_def)
      from went(2) show ?thesis
      proof (cases rule: andThen_cases)
        case (failed e)
        from maintenance_step_run [OF failed(1)] obtain M where
          m: "trace s' = trace s2 @ M" "\<forall>e\<in>set M. \<not> isStop e" by auto
        show ?thesis
          by (rule exI [of _ "infoEvents b r1 @ infoEvents b r2 @ M"], rule exI [of _ "[]"]) (use t1 t2 m in \<open>simp add: ball_Un\<close>)
      next
        case (went u s3)
        from maintenance_step_run [OF went(1)] obtain M where
          m: "trace s3 = trace s2 @ M" "\<forall>e\<in>set M. \<not> isStop e"
             "t \<or> (\<exists>ok. ToggleNodeStatus b ''offline'' ok \<in> set M)" by auto
        let ?A = "infoEvents b r1 @ infoEvents b r2 @ M"
        have a: "trace s3 = trace s @ ?A" using t1 t2 m by simp
        have quiet: "\<forall>e\<in>set ?A. \<not> isStop e" using m by (simp add: ball_Un)
        have guard: "(\<exists>ok. ToggleNodeStatus b ''offline'' ok \<in> set ?A)
            \<or> (\<exists>d. NodeInfoGet b (Decoded d) \<in> set ?A \<and> TemporarilyOffline d)"
          using m(3) seen by auto
        from ensureBuildBoxIsNotRunning_run [OF went(2)] show ?thesis
        proof
          assume "\<exists>r. r \<noteq> Some ''RUNNING'' \<and> res = Inr () \<and> trace s' = trace s3 @ runningEvents b r"
          then obtain r where r: "trace s' = trace s3 @ runningEvents b r" by auto
          show ?thesis
            by (rule exI [of _ ?A], rule exI [of _ "runningEvents b r"]) (use a quiet r in \<open>simp add: ball_Un\<close>)
        next
          assume "\<exists>ok W. trace s' = trace s3 @ [InstancesGet b (Some ''RUNNING''),
                     Log (IsRunningStopping b), InstancesStop b ok] @ W
                 \<and> (\<forall>e\<in>set W. \<not> isCommand e)"
          then obtain ok W where w: "trace s' = trace s3 @ [InstancesGet b (Some ''RUNNING''),
                     Log (IsRunningStopping b), InstancesStop b ok] @ W"
            "\<forall>e\<in>set W. \<not> isCommand e" by auto
          show ?thesis
            apply (rule exI [of _ ?A])
            apply (rule exI [of _ "[InstancesGet b (Some ''RUNNING''),
                     Log (IsRunningStopping b), InstancesStop b ok] @ W"])
            using a quiet guard w by (auto simp: ball_Un)
        qed
      qed
    qed
  qed
qed


lemma emitted_append: "trace s' = trace s @ new \<Longrightarrow> emitted s s' = new"
  by (simp add: emitted_def)

text \<open>The definitions a run of the take-offline transition in \<open>sim\<close> unfolds.\<close>

lemmas run_defs = stopBuildBoxAsync_def isNodeIdle_def isNodeTemporarilyOffline_def andThen_def
  fetchNodeInfo_def ret_def emit_def say_def toggleNodeStatus_def ensureBuildBoxIsNotRunning_def
  isBuildBoxRunning_def stopBuildBox_def waitForStatus_def sleepFor_def sim_def boxWorld_def simWorld0_def
  startState_def regInfo_def emitted_def Let_def


section \<open>Runs are faithful to the collaborators\<close>

lemma replay_append:
  "replay E (xs @ ys) w = (case replay E xs w of None \<Rightarrow> None | Some w' \<Rightarrow> replay E ys w')"
  by (induction E xs w rule: replay.induct) simp_all

lemma elapsed_append: "elapsed (xs @ ys) = elapsed xs + elapsed ys"
  by (induction xs rule: elapsed.induct) simp_all

lemma waitLoop_exact:
  "waitLoop E b st prev fuel s = (res, s') \<Longrightarrow>
   \<exists>replies. trace s' = trace s @ specWaiterEvents b st prev replies
     \<and> replay E (specWaiterEvents b st prev replies) (world s) = Some (world s')
     \<and> clock s' = clock s + elapsed (specWaiterEvents b st prev replies)
     \<and> (res = Inr () \<and> (\<exists>pre. replies = pre @ [Some st] \<and> Some st \<notin> set pre)
        \<or> res = Inl OutOfFuel \<and> Some st \<notin> set replies \<and> length replies = fuel)"
proof (induction fuel arbitrary: s prev)
  case 0
  then show ?case by (intro exI [of _ "[]"]) auto
next
  case (Suc fuel)
  obtain r w where g: "instancesGet E b (world s) = (r, w)" by (cases "instancesGet E b (world s)")
  show ?case
  proof (cases r)
    case None
    let ?s1 = "emit (Log (GetInstanceFailedFor b)) (emit (InstancesGet b None) (s\<lparr>world := w\<rparr>))"
    from Suc.prems g None have "waitLoop E b st prev fuel ?s1 = (res, s')" by simp
    from Suc.IH [OF this] obtain replies where n:
      "trace s' = trace ?s1 @ specWaiterEvents b st prev replies"
      "replay E (specWaiterEvents b st prev replies) (world ?s1) = Some (world s')"
      "clock s' = clock ?s1 + elapsed (specWaiterEvents b st prev replies)"
      "res = Inr () \<and> (\<exists>pre. replies = pre @ [Some st] \<and> Some st \<notin> set pre)
        \<or> res = Inl OutOfFuel \<and> Some st \<notin> set replies \<and> length replies = fuel"
      by blast
    have 4: "res = Inr () \<and> (\<exists>pre. None # replies = pre @ [Some st] \<and> Some st \<notin> set pre)
        \<or> res = Inl OutOfFuel \<and> Some st \<notin> set (None # replies) \<and> length (None # replies) = Suc fuel"
      using n(4)
    proof
      assume a: "res = Inr () \<and> (\<exists>pre. replies = pre @ [Some st] \<and> Some st \<notin> set pre)"
      then obtain pre where "replies = pre @ [Some st]" "Some st \<notin> set pre" by blast
      then have "None # replies = (None # pre) @ [Some st] \<and> Some st \<notin> set (None # pre)" by simp
      with a show ?thesis by blast
    next
      assume "res = Inl OutOfFuel \<and> Some st \<notin> set replies \<and> length replies = fuel"
      then show ?thesis by simp
    qed
    show ?thesis
      by (rule exI [of _ "None # replies"]) (use n(1,2,3) 4 g None in \<open>simp add: emit_def\<close>)
  next
    case (Some x)
    let ?c = "if x \<noteq> prev then [Log (StatusChanged b x)] else []"
    show ?thesis
    proof (cases "x = st")
      case True
      with Suc.prems g Some have
        "res = Inr ()" "trace s' = trace s @ InstancesGet b (Some x) # ?c @ [Log (StatusReached b st)]"
        "world s' = w" "clock s' = clock s"
        by (auto simp: emit_def Let_def)
      with True g Some show ?thesis
        by (intro exI [of _ "[Some st]"]) (auto simp: replay_append intro: exI [of _ "[]"])
    next
      case False
      let ?s2 = "snd (sleepFor E 3 (if prev \<noteq> x
                        then emit (Log (StatusChanged b x)) (emit (InstancesGet b (Some x)) (s\<lparr>world := w\<rparr>))
                        else emit (InstancesGet b (Some x)) (s\<lparr>world := w\<rparr>)))"
      from Suc.prems g Some False have "waitLoop E b st x fuel ?s2 = (res, s')"
        by (auto simp: Let_def)
      from Suc.IH [OF this] obtain replies where n:
        "trace s' = trace ?s2 @ specWaiterEvents b st x replies"
        "replay E (specWaiterEvents b st x replies) (world ?s2) = Some (world s')"
        "clock s' = clock ?s2 + elapsed (specWaiterEvents b st x replies)"
        "res = Inr () \<and> (\<exists>pre. replies = pre @ [Some st] \<and> Some st \<notin> set pre)
          \<or> res = Inl OutOfFuel \<and> Some st \<notin> set replies \<and> length replies = fuel"
        by blast
      have t: "trace ?s2 = trace s @ InstancesGet b (Some x) # ?c @ [Slept 3]"
        "world ?s2 = sleep E 3 w" "clock ?s2 = clock s + 3"
        by (simp_all add: sleepFor_def emit_def)
      have 4: "res = Inr () \<and> (\<exists>pre. Some x # replies = pre @ [Some st] \<and> Some st \<notin> set pre)
          \<or> res = Inl OutOfFuel \<and> Some st \<notin> set (Some x # replies)
              \<and> length (Some x # replies) = Suc fuel"
        using n(4)
      proof
        assume a: "res = Inr () \<and> (\<exists>pre. replies = pre @ [Some st] \<and> Some st \<notin> set pre)"
        then obtain pre where "replies = pre @ [Some st]" "Some st \<notin> set pre" by blast
        with False have "Some x # replies = (Some x # pre) @ [Some st]
            \<and> Some st \<notin> set (Some x # pre)" by simp
        with a show ?thesis by blast
      next
        assume "res = Inl OutOfFuel \<and> Some st \<notin> set replies \<and> length replies = fuel"
        with False show ?thesis by simp
      qed
      show ?thesis
        by (rule exI [of _ "Some x # replies"])
           (use n(1,2,3) t 4 g Some False in \<open>auto simp: replay_append\<close>)
    qed
  qed
qed

lemma faithful_refl: "faithful E s s"
  by (simp add: faithful_def)

lemma faithful_trans:
  assumes "faithful E s s1" and "faithful E s1 s2"
  shows "faithful E s s2"
proof -
  from assms(1) obtain n1 where 1: "trace s1 = trace s @ n1"
    "replay E n1 (world s) = Some (world s1)" "clock s1 = clock s + elapsed n1"
    by (auto simp: faithful_def)
  from assms(2) obtain n2 where 2: "trace s2 = trace s1 @ n2"
    "replay E n2 (world s1) = Some (world s2)" "clock s2 = clock s1 + elapsed n2"
    by (auto simp: faithful_def)
  show ?thesis
    unfolding faithful_def
    by (rule exI [of _ "n1 @ n2"]) (use 1 2 in \<open>simp add: replay_append elapsed_append\<close>)
qed

lemma faithful_andThen:
  assumes "andThen m f s = (res, s')"
    and "\<And>r s1. m s = (r, s1) \<Longrightarrow> faithful E s s1"
    and "\<And>x s1. m s = (Inr x, s1) \<Longrightarrow> f x s1 = (res, s') \<Longrightarrow> faithful E s1 s'"
  shows "faithful E s s'"
  using assms(1)
proof (cases rule: andThen_cases)
  case (failed e)
  then show ?thesis using assms(2) by blast
next
  case (went x s1)
  from assms(2) [OF went(1)] assms(3) [OF went] show ?thesis by (rule faithful_trans)
qed

lemma faithful_log: "faithful E s (emit (Log m) s)"
  unfolding faithful_def by (rule exI [of _ "[Log m]"]) (simp add: emit_def)

lemma say_faithful: "say m s = (res, s') \<Longrightarrow> faithful E s s'"
  using faithful_log [of E s m] by (auto simp: say_def)

lemma ret_faithful: "ret x s = (res, s') \<Longrightarrow> faithful E s s'"
  by (auto simp: ret_def faithful_refl)

lemma sleepFor_faithful: "sleepFor E n s = (res, s') \<Longrightarrow> faithful E s s'"
  unfolding faithful_def by (rule exI [of _ "[Slept n]"]) (auto simp: sleepFor_def emit_def)

lemma fetchNodeInfo_faithful:
  assumes "fetchNodeInfo E b s = (res, s')"
  shows "faithful E s s'"
proof -
  obtain r w where g: "getNodeInfo E b (world s) = (r, w)"
    by (cases "getNodeInfo E b (world s)")
  show ?thesis
    unfolding faithful_def
    by (rule exI [of _ "infoEvents b r"])
       (use assms g in \<open>cases r; auto simp: fetchNodeInfo_def emit_def infoEvents_def\<close>)
qed

lemma fetch_field_faithful:
  assumes "andThen (fetchNodeInfo E b) (\<lambda>d. ret (f d)) s = (res, s')"
  shows "faithful E s s'"
  using assms
  by (rule faithful_andThen) (auto intro: fetchNodeInfo_faithful ret_faithful)

lemma toggleNodeStatus_faithful:
  assumes "toggleNodeStatus E b m s = (res, s')"
  shows "faithful E s s'"
proof -
  obtain ok w where g: "postToggleOffline E b (world s) = (ok, w)"
    by (cases "postToggleOffline E b (world s)")
  show ?thesis
    unfolding faithful_def
    by (rule exI [of _ "toggleEvents b m ok"])
       (use assms g in \<open>cases ok; auto simp: toggleNodeStatus_def emit_def toggleEvents_def\<close>)
qed

lemma isBuildBoxRunning_faithful:
  assumes "isBuildBoxRunning E b s = (res, s')"
  shows "faithful E s s'"
proof -
  obtain r w where g: "instancesGet E b (world s) = (r, w)"
    by (cases "instancesGet E b (world s)")
  show ?thesis
    unfolding faithful_def
    by (rule exI [of _ "runningEvents b r"])
       (use assms g in \<open>cases r; auto simp: isBuildBoxRunning_def emit_def runningEvents_def\<close>)
qed

lemma waitForStatus_faithful:
  assumes "waitForStatus E b st fuel s = (res, s')"
  shows "faithful E s s'"
proof -
  from assms have "waitLoop E b st [] fuel s = (res, s')" by (simp add: waitForStatus_def)
  from waitLoop_exact [OF this] show ?thesis unfolding faithful_def by blast
qed

lemma stopBuildBox_faithful:
  assumes "stopBuildBox E fuel b s = (res, s')"
  shows "faithful E s s'"
proof -
  obtain ok w where g: "instancesStop E b (world s) = (ok, w)"
    by (cases "instancesStop E b (world s)")
  let ?s1 = "emit (InstancesStop b ok) (s\<lparr>world := w\<rparr>)"
  have 1: "faithful E s ?s1"
    unfolding faithful_def by (rule exI [of _ "[InstancesStop b ok]"]) (use g in \<open>simp add: emit_def\<close>)
  have 2: "faithful E ?s1 s'"
  proof (cases ok)
    case False
    with assms g have "andThen (say StopRequestFailed) (\<lambda>_. ret False) ?s1 = (res, s')"
      by (simp add: stopBuildBox_def)
    then show ?thesis
      by (rule faithful_andThen) (auto intro: say_faithful ret_faithful)
  next
    case True
    with assms g have "andThen (waitForStatus E b ''TERMINATED'' fuel) (\<lambda>_. ret True) ?s1 = (res, s')"
      by (simp add: stopBuildBox_def)
    then show ?thesis
      by (rule faithful_andThen) (auto intro: waitForStatus_faithful ret_faithful)
  qed
  from 1 2 show ?thesis by (rule faithful_trans)
qed

lemma ensureBuildBoxIsNotRunning_faithful:
  assumes "ensureBuildBoxIsNotRunning E fuel b s = (res, s')"
  shows "faithful E s s'"
  using assms unfolding ensureBuildBoxIsNotRunning_def
proof (rule faithful_andThen)
  fix r s1 assume "isBuildBoxRunning E b s = (r, s1)"
  then show "faithful E s s1" by (rule isBuildBoxRunning_faithful)
next
  fix x s1
  assume "(if x then andThen (say (IsRunningStopping b))
              (\<lambda>_. andThen (stopBuildBox E fuel b) (\<lambda>_. ret ()))
           else ret ()) s1 = (res, s')"
  then show "faithful E s1 s'"
  proof (cases x)
    case True
    assume "(if x then andThen (say (IsRunningStopping b))
              (\<lambda>_. andThen (stopBuildBox E fuel b) (\<lambda>_. ret ()))
           else ret ()) s1 = (res, s')"
    with True have "andThen (say (IsRunningStopping b))
              (\<lambda>_. andThen (stopBuildBox E fuel b) (\<lambda>_. ret ())) s1 = (res, s')" by simp
    then show ?thesis
    proof (rule faithful_andThen)
      fix r s2 assume "say (IsRunningStopping b) s1 = (r, s2)"
      then show "faithful E s1 s2" by (rule say_faithful)
    next
      fix u s2 assume "andThen (stopBuildBox E fuel b) (\<lambda>_. ret ()) s2 = (res, s')"
      then show "faithful E s2 s'"
        by (rule faithful_andThen) (auto intro: stopBuildBox_faithful ret_faithful)
    qed
  next
    case False
    assume "(if x then andThen (say (IsRunningStopping b))
              (\<lambda>_. andThen (stopBuildBox E fuel b) (\<lambda>_. ret ()))
           else ret ()) s1 = (res, s')"
    with False show ?thesis by (auto intro: ret_faithful)
  qed
qed

lemma maintenance_step_faithful:
  assumes "(if \<not> t
            then andThen (say (NotOfflineTogglingOffline b)) (\<lambda>_.
                 andThen (toggleNodeStatus E b ''offline'') (\<lambda>_. ret ()))
            else ret ()) s = (res, s')"
  shows "faithful E s s'"
proof (cases t)
  case True
  with assms show ?thesis by (auto intro: ret_faithful)
next
  case False
  with assms have "andThen (say (NotOfflineTogglingOffline b)) (\<lambda>_.
                 andThen (toggleNodeStatus E b ''offline'') (\<lambda>_. ret ())) s = (res, s')" by simp
  then show ?thesis
  proof (rule faithful_andThen)
    fix r s2 assume "say (NotOfflineTogglingOffline b) s = (r, s2)"
    then show "faithful E s s2" by (rule say_faithful)
  next
    fix u s2 assume "andThen (toggleNodeStatus E b ''offline'') (\<lambda>_. ret ()) s2 = (res, s')"
    then show "faithful E s2 s'"
      by (rule faithful_andThen) (auto intro: toggleNodeStatus_faithful ret_faithful)
  qed
qed

lemma stopBuildBoxAsync_faithful:
  assumes "stopBuildBoxAsync E fuel b s = (res, s')"
  shows "faithful E s s'"
  using assms unfolding stopBuildBoxAsync_def
proof (rule faithful_andThen)
  fix r s1 assume "isNodeIdle E b s = (r, s1)"
  then show "faithful E s s1" unfolding isNodeIdle_def by (rule fetch_field_faithful)
next
  fix idle s1
  assume a: "(if \<not> idle then ret ()
        else andThen (isNodeTemporarilyOffline E b)
              (\<lambda>tempOffline.
                  andThen
                   (if \<not> tempOffline
                    then andThen (say (NotOfflineTogglingOffline b))
                          (\<lambda>_. andThen (toggleNodeStatus E b ''offline'') (\<lambda>_. ret ()))
                    else ret ())
                   (\<lambda>_. ensureBuildBoxIsNotRunning E fuel b))) s1 = (res, s')"
  show "faithful E s1 s'"
  proof (cases idle)
    case False
    with a show ?thesis by (auto intro: ret_faithful)
  next
    case True
    with a have "andThen (isNodeTemporarilyOffline E b)
              (\<lambda>tempOffline.
                  andThen
                   (if \<not> tempOffline
                    then andThen (say (NotOfflineTogglingOffline b))
                          (\<lambda>_. andThen (toggleNodeStatus E b ''offline'') (\<lambda>_. ret ()))
                    else ret ())
                   (\<lambda>_. ensureBuildBoxIsNotRunning E fuel b)) s1 = (res, s')" by simp
    then show ?thesis
    proof (rule faithful_andThen)
      fix r s2 assume "isNodeTemporarilyOffline E b s1 = (r, s2)"
      then show "faithful E s1 s2" unfolding isNodeTemporarilyOffline_def
        by (rule fetch_field_faithful)
    next
      fix t s2
      assume "andThen
                   (if \<not> t
                    then andThen (say (NotOfflineTogglingOffline b))
                          (\<lambda>_. andThen (toggleNodeStatus E b ''offline'') (\<lambda>_. ret ()))
                    else ret ())
                   (\<lambda>_. ensureBuildBoxIsNotRunning E fuel b) s2 = (res, s')"
      then show "faithful E s2 s'"
        by (rule faithful_andThen)
           (auto intro: maintenance_step_faithful ensureBuildBoxIsNotRunning_faithful)
    qed
  qed
qed

lemma isToggle_isCommand: "isToggle e \<Longrightarrow> isCommand e"
  by (cases e) simp_all

lemma maintenance_step_exact:
  assumes "(if \<not> t
            then andThen (say (NotOfflineTogglingOffline b)) (\<lambda>_.
                 andThen (toggleNodeStatus E b ''offline'') (\<lambda>_. ret ()))
            else ret ()) s = (res, s')"
  shows "res = Inr () \<and> (t \<and> trace s' = trace s
           \<or> \<not> t \<and> (\<exists>okT. trace s' = trace s @ Log (NotOfflineTogglingOffline b)
                                # toggleEvents b ''offline'' okT))"
proof (cases t)
  case True
  with assms show ?thesis by (auto simp: ret_def)
next
  case False
  with assms have a: "andThen (toggleNodeStatus E b ''offline'') (\<lambda>_. ret ())
      (emit (Log (NotOfflineTogglingOffline b)) s) = (res, s')"
    by (simp add: andThen_def say_def)
  then show ?thesis
  proof (cases rule: andThen_cases)
    case (failed e)
    from toggleNodeStatus_run [OF failed(1)] show ?thesis by simp
  next
    case (went x s1)
    from toggleNodeStatus_run [OF went(1)] obtain ok where
      "trace s1 = trace s @ Log (NotOfflineTogglingOffline b) # toggleEvents b ''offline'' ok"
      by (auto simp: emit_def)
    with went(2) False show ?thesis by (auto simp: ret_def)
  qed
qed

lemma ensureBuildBoxIsNotRunning_stopStep:
  assumes "ensureBuildBoxIsNotRunning E fuel b s = (res, s')"
  shows "\<exists>En. trace s' = trace s @ En \<and> stopStep b En"
  using ensureBuildBoxIsNotRunning_run [OF assms]
proof
  assume "\<exists>r. r \<noteq> Some ''RUNNING'' \<and> res = Inr () \<and> trace s' = trace s @ runningEvents b r"
  then obtain r where "r \<noteq> Some ''RUNNING''" "trace s' = trace s @ runningEvents b r" by blast
  then show ?thesis
    by (intro exI [of _ "runningEvents b r"]) (auto simp: stopStep_def)
next
  assume "\<exists>ok W. trace s' = trace s @ [InstancesGet b (Some ''RUNNING''), Log (IsRunningStopping b),
                                     InstancesStop b ok] @ W
                 \<and> (\<forall>e\<in>set W. \<not> isCommand e)"
  then obtain ok W where w: "trace s' = trace s @ [InstancesGet b (Some ''RUNNING''),
      Log (IsRunningStopping b), InstancesStop b ok] @ W" "\<forall>e\<in>set W. \<not> isCommand e"
    by blast
  have "stopStep b (InstancesGet b (Some ''RUNNING'') # Log (IsRunningStopping b)
      # InstancesStop b ok # W)"
    unfolding stopStep_def using w(2) by blast
  with w(1) show ?thesis
    by (intro exI [of _ "InstancesGet b (Some ''RUNNING'') # Log (IsRunningStopping b)
      # InstancesStop b ok # W"]) simp
qed

lemma stopBuildBoxAsync_run:
  assumes "stopBuildBoxAsync E fuel b s = (res, s')"
  shows "(\<exists>new. trace s' = trace s @ new \<and> (\<forall>e\<in>set new. \<not> isCommand e))
     \<or> (\<exists>d1 d2 En. Idle d1 \<and> TemporarilyOffline d2 \<and> stopStep b En
          \<and> trace s' = trace s @ NodeInfoGet b (Decoded d1) # NodeInfoGet b (Decoded d2) # En)
     \<or> (\<exists>d1 r2 okT En. Idle d1
          \<and> (r2 = Undecodable \<or> (\<exists>d. r2 = Decoded d \<and> \<not> TemporarilyOffline d))
          \<and> stopStep b En
          \<and> trace s' = trace s @ NodeInfoGet b (Decoded d1) # infoEvents b r2
               @ Log (NotOfflineTogglingOffline b) # toggleEvents b ''offline'' okT @ En)"
  using assms unfolding stopBuildBoxAsync_def isNodeIdle_def
proof (cases rule: andThen_cases)
  case (failed e)
  from fetch_field [OF failed(1)] obtain r where "trace s' = trace s @ infoEvents b r" by auto
  then have "\<exists>new. trace s' = trace s @ new \<and> (\<forall>e\<in>set new. \<not> isCommand e)"
    by (intro exI [of _ "infoEvents b r"]) (simp add: infoEvents_def)
  then show ?thesis by blast
next
  case (went idle s1)
  from fetch_field [OF went(1)] obtain r1 where t1: "trace s1 = trace s @ infoEvents b r1"
    and v1: "(r1 = Undecodable \<and> idle = Idle zeroInfo) \<or> (\<exists>d. r1 = Decoded d \<and> idle = Idle d)"
    by auto
  show ?thesis
  proof (cases idle)
    case False
    with went(2) have "s' = s1" by (simp add: ret_def)
    with t1 have "\<exists>new. trace s' = trace s @ new \<and> (\<forall>e\<in>set new. \<not> isCommand e)"
      by (intro exI [of _ "infoEvents b r1"]) (simp add: infoEvents_def)
    then show ?thesis by blast
  next
    case True
    with v1 obtain d1 where d1: "r1 = Decoded d1" "Idle d1" by (auto simp: zeroInfo_def)
    with t1 have t1': "trace s1 = trace s @ [NodeInfoGet b (Decoded d1)]"
      by (simp add: infoEvents_def)
    from True went(2) have "andThen (andThen (fetchNodeInfo E b) (\<lambda>d. ret (TemporarilyOffline d)))
        (\<lambda>tempOffline.
           andThen (if \<not> tempOffline
                    then andThen (say (NotOfflineTogglingOffline b)) (\<lambda>_.
                         andThen (toggleNodeStatus E b ''offline'') (\<lambda>_. ret ()))
                    else ret ()) (\<lambda>_. ensureBuildBoxIsNotRunning E fuel b)) s1 = (res, s')"
      by (simp add: isNodeTemporarilyOffline_def)
    then show ?thesis
    proof (cases rule: andThen_cases)
      case (failed e)
      from fetch_field [OF failed(1)] obtain r2 where "trace s' = trace s1 @ infoEvents b r2"
        by auto
      with t1' have "\<exists>new. trace s' = trace s @ new \<and> (\<forall>e\<in>set new. \<not> isCommand e)"
        by (intro exI [of _ "NodeInfoGet b (Decoded d1) # infoEvents b r2"])
           (simp add: infoEvents_def)
      then show ?thesis by blast
    next
      case (went t s2)
      from fetch_field [OF went(1)] obtain r2 where t2: "trace s2 = trace s1 @ infoEvents b r2"
        and v2: "(r2 = Undecodable \<and> t = TemporarilyOffline zeroInfo)
                 \<or> (\<exists>d. r2 = Decoded d \<and> t = TemporarilyOffline d)"
        by auto
      from went(2) show ?thesis
      proof (cases rule: andThen_cases)
        case (failed e)
        from maintenance_step_exact [OF failed(1)] show ?thesis by simp
      next
        case (went u s3)
        from ensureBuildBoxIsNotRunning_stopStep [OF went(2)] obtain En where
          en: "trace s' = trace s3 @ En" "stopStep b En" by blast
        from maintenance_step_exact [OF went(1)] have
          "t \<and> trace s3 = trace s2
           \<or> \<not> t \<and> (\<exists>okT. trace s3 = trace s2 @ Log (NotOfflineTogglingOffline b)
                                # toggleEvents b ''offline'' okT)"
          by simp
        then show ?thesis
        proof
          assume a: "t \<and> trace s3 = trace s2"
          with v2 obtain d2 where d2: "r2 = Decoded d2" "TemporarilyOffline d2"
            by (auto simp: zeroInfo_def)
          from a t2 t1' d2 en have "trace s' = trace s @ NodeInfoGet b (Decoded d1)
              # NodeInfoGet b (Decoded d2) # En"
            by (simp add: infoEvents_def)
          with d1 d2 en(2) show ?thesis by blast
        next
          assume a: "\<not> t \<and> (\<exists>okT. trace s3 = trace s2 @ Log (NotOfflineTogglingOffline b)
                                # toggleEvents b ''offline'' okT)"
          then obtain okT where k: "trace s3 = trace s2 @ Log (NotOfflineTogglingOffline b)
                                # toggleEvents b ''offline'' okT" by blast
          from a v2 have r2: "r2 = Undecodable \<or> (\<exists>d. r2 = Decoded d \<and> \<not> TemporarilyOffline d)"
            by auto
          from k t2 t1' en have "trace s' = trace s @ NodeInfoGet b (Decoded d1) # infoEvents b r2
               @ Log (NotOfflineTogglingOffline b) # toggleEvents b ''offline'' okT @ En"
            by simp
          with d1 r2 en(2) show ?thesis by blast
        qed
      qed
    qed
  qed
qed


lemma stopStep_quiet:
  assumes "stopStep b En"
  shows "\<forall>e\<in>set En. \<not> isToggle e"
  using assms unfolding stopStep_def
proof
  assume "\<exists>g. g \<noteq> Some ''RUNNING'' \<and> En = runningEvents b g"
  then show ?thesis by (auto simp: runningEvents_def)
next
  assume "\<exists>ok W. En = InstancesGet b (Some ''RUNNING'') # Log (IsRunningStopping b)
                       # InstancesStop b ok # W
               \<and> (\<forall>e\<in>set W. \<not> isCommand e)"
  then obtain ok W where w: "En = InstancesGet b (Some ''RUNNING'') # Log (IsRunningStopping b)
                       # InstancesStop b ok # W" "\<forall>e\<in>set W. \<not> isCommand e" by blast
  from w(2) have "\<forall>e\<in>set W. \<not> isToggle e" using isToggle_isCommand by blast
  with w(1) show ?thesis by simp
qed

lemma stop_in_run:
  assumes "X @ En = pre @ InstancesStop b' ok # post"
    and "\<forall>e\<in>set X. \<not> isStop e" and "stopStep b En"
  shows "b' = b \<and> pre = X @ [InstancesGet b (Some ''RUNNING''), Log (IsRunningStopping b)]
    \<and> (\<forall>e\<in>set post. \<not> isCommand e)"
  using assms(3) unfolding stopStep_def
proof
  assume "\<exists>g. g \<noteq> Some ''RUNNING'' \<and> En = runningEvents b g"
  then have "\<forall>e\<in>set En. \<not> isStop e" by (auto simp: runningEvents_def)
  with assms(2) have "\<forall>e\<in>set (X @ En). \<not> isStop e" by (simp add: ball_Un)
  with assms(1) have False by (auto simp: ball_Un)
  then show ?thesis ..
next
  assume "\<exists>ok W. En = InstancesGet b (Some ''RUNNING'') # Log (IsRunningStopping b)
                       # InstancesStop b ok # W
               \<and> (\<forall>e\<in>set W. \<not> isCommand e)"
  then obtain ok0 W where w: "En = InstancesGet b (Some ''RUNNING'') # Log (IsRunningStopping b)
                       # InstancesStop b ok0 # W" "\<forall>e\<in>set W. \<not> isCommand e" by blast
  from assms(1) w have "(X @ [InstancesGet b (Some ''RUNNING''), Log (IsRunningStopping b)])
        @ InstancesStop b ok0 # W = pre @ InstancesStop b' ok # post" by simp
  moreover have "isStop (InstancesStop b' ok)" by simp
  moreover have "\<forall>e\<in>set (X @ [InstancesGet b (Some ''RUNNING''), Log (IsRunningStopping b)]).
        \<not> isStop e" using assms(2) by (simp add: ball_Un)
  moreover have "\<forall>e\<in>set W. \<not> isStop e" using w(2) isStop_isCommand by blast
  ultimately have "pre = X @ [InstancesGet b (Some ''RUNNING''), Log (IsRunningStopping b)]
        \<and> InstancesStop b' ok = InstancesStop b ok0 \<and> post = W"
    by (rule split_unique)
  with w(2) show ?thesis by simp
qed

lemma toggle_in_run:
  assumes "X @ ToggleNodeStatus b m okT # Y = pre @ ToggleNodeStatus b' m' okT' # post"
    and "\<forall>e\<in>set X. \<not> isToggle e" and "\<forall>e\<in>set Y. \<not> isToggle e"
  shows "pre = X \<and> b' = b \<and> m' = m \<and> okT' = okT \<and> post = Y"
proof -
  have "isToggle (ToggleNodeStatus b' m' okT')" by simp
  with assms(1) have "pre = X \<and> ToggleNodeStatus b' m' okT' = ToggleNodeStatus b m okT \<and> post = Y"
    using assms(2,3) by (rule split_unique)
  then show ?thesis by simp
qed

lemma stopStep_first:
  assumes "stopStep b En"
  shows "\<exists>g rest. En = InstancesGet b g # rest
    \<and> (if g = Some ''RUNNING''
        then \<exists>ok W. rest = Log (IsRunningStopping b) # InstancesStop b ok # W
        else rest = (if g = None then [Log GetInstanceFailed] else []))"
  using assms unfolding stopStep_def
proof
  assume "\<exists>g. g \<noteq> Some ''RUNNING'' \<and> En = runningEvents b g"
  then obtain g where "g \<noteq> Some ''RUNNING''" "En = runningEvents b g" by blast
  then show ?thesis
    by (intro exI [of _ g] exI [of _ "if g = None then [Log GetInstanceFailed] else []"])
       (simp add: runningEvents_def)
next
  assume "\<exists>ok W. En = InstancesGet b (Some ''RUNNING'') # Log (IsRunningStopping b)
                       # InstancesStop b ok # W
               \<and> (\<forall>e\<in>set W. \<not> isCommand e)"
  then obtain ok W where "En = InstancesGet b (Some ''RUNNING'') # Log (IsRunningStopping b)
                       # InstancesStop b ok # W" by blast
  then show ?thesis
    by (intro exI [of _ "Some ''RUNNING''"]
          exI [of _ "Log (IsRunningStopping b) # InstancesStop b ok # W"]) simp
qed


section \<open>Take-offline leaves a busy box alone\<close>

text \<open>
  C6. When the CI master reports the box not idle (\<open>Idle = False\<close>), or its answer
  does not decode (the zero value, not idle either), \<^verbatim>\<open>stopBuildBoxAsync\<close> returns at
  once: the read of the node is the only request it makes, so it issues no toggle and no
  stop, for any environment, any box and any state.
\<close>

theorem stopBuildBoxAsync_not_idle:
  assumes "getNodeInfo E b (world s) = (r, w)"
    and "r = Undecodable \<or> (\<exists>d. r = Decoded d \<and> \<not> Idle d)"
  shows "stopBuildBoxAsync E fuel b s =
    (Inr (), s\<lparr>world := w,
               trace := trace s @ NodeInfoGet b r #
                 (if r = Undecodable then [Log (NodeInfoUndecodable b)] else [])\<rparr>)"
  using assms
  by (auto simp: stopBuildBoxAsync_def isNodeIdle_def andThen_def fetchNodeInfo_def ret_def
      emit_def zeroInfo_def)

lemma busyBox_reply:
  "getNodeInfo sim ''build1-api'' (world busyBox)
   = (Decoded (regInfo False False False (Some ''Linux (amd64)'')), world busyBox)"
  by (simp add: sim_def busyBox_def boxWorld_def simWorld0_def startState_def)

theorem stopBuildBoxAsync_not_idle_witness:
  "stopBuildBoxAsync sim 3 ''build1-api'' busyBox =
     (Inr (),
      busyBox\<lparr>trace :=
        [NodeInfoGet ''build1-api'' (Decoded (regInfo False False False (Some ''Linux (amd64)'')))]\<rparr>)"
proof -
  have idle: "Decoded (regInfo False False False (Some ''Linux (amd64)'')) = Undecodable
    \<or> (\<exists>d. Decoded (regInfo False False False (Some ''Linux (amd64)'')) = Decoded d \<and> \<not> Idle d)"
    by (simp add: regInfo_def)
  have "stopBuildBoxAsync sim 3 ''build1-api'' busyBox =
    (Inr (), busyBox\<lparr>world := world busyBox,
       trace := trace busyBox @
         NodeInfoGet ''build1-api'' (Decoded (regInfo False False False (Some ''Linux (amd64)''))) #
         (if Decoded (regInfo False False False (Some ''Linux (amd64)'')) = Undecodable
          then [Log (NodeInfoUndecodable ''build1-api'')] else [])\<rparr>)"
    by (rule stopBuildBoxAsync_not_idle [OF busyBox_reply idle])
  then show ?thesis by (simp add: busyBox_def startState_def)
qed

section \<open>Take-offline stops only an instance reported running\<close>

lemma run_idleInMaintenance:
  "stopBuildBoxAsync sim 3 ''build1-api'' idleInMaintenance =
   (Inr (),
    \<lparr>world = boxWorld (regInfo True True True None) ''TERMINATED'', clock = 0,
     trace =
       [NodeInfoGet ''build1-api'' (Decoded (regInfo True True True None)),
        NodeInfoGet ''build1-api'' (Decoded (regInfo True True True None)),
        InstancesGet ''build1-api'' (Some ''RUNNING''),
        Log (IsRunningStopping ''build1-api''),
        InstancesStop ''build1-api'' True,
        InstancesGet ''build1-api'' (Some ''TERMINATED''),
        Log (StatusChanged ''build1-api'' ''TERMINATED''),
        Log (StatusReached ''build1-api'' ''TERMINATED'')]\<rparr>)"
  by (simp add: run_defs idleInMaintenance_def eval_nat_numeral)


text \<open>
  C7. In every run of \<^verbatim>\<open>stopBuildBoxAsync\<close>, whatever the environment answers, a stop
  request is for the box of the task and comes right after the compute plane reported
  that instance \<^verbatim>\<open>RUNNING\<close> (and the line that says so was logged). An instance
  reported in any other state, or whose state could not be read, gets no stop request.
\<close>

theorem stop_only_when_reported_running:
  assumes "stopBuildBoxAsync E fuel b s = (res, s')"
    and "emitted s s' = pre @ InstancesStop b' ok # post"
  shows "b' = b \<and>
    (\<exists>pre'. pre = pre' @ [InstancesGet b (Some ''RUNNING''), Log (IsRunningStopping b)])"
proof -
  from stopBuildBoxAsync_shape [OF assms(1)] obtain A B where
    t: "trace s' = trace s @ A @ B" and a: "\<forall>e\<in>set A. \<not> isStop e"
    and b: "(\<forall>e\<in>set B. \<not> isStop e) \<or>
        (\<exists>ok W. B = [InstancesGet b (Some ''RUNNING''), Log (IsRunningStopping b),
                         InstancesStop b ok] @ W
                   \<and> (\<forall>e\<in>set W. \<not> isCommand e))"
    by blast
  from t assms(2) have e: "A @ B = pre @ InstancesStop b' ok # post"
    by (simp add: emitted_def)
  from b show ?thesis
  proof
    assume "\<forall>e\<in>set B. \<not> isStop e"
    with a have "\<forall>e\<in>set (A @ B). \<not> isStop e" by (simp add: ball_Un)
    with e have False by (auto simp: ball_Un)
    then show ?thesis ..
  next
    assume "\<exists>ok W. B = [InstancesGet b (Some ''RUNNING''), Log (IsRunningStopping b),
                         InstancesStop b ok] @ W
                   \<and> (\<forall>e\<in>set W. \<not> isCommand e)"
    then obtain ok0 W where w: "B = [InstancesGet b (Some ''RUNNING''), Log (IsRunningStopping b),
                         InstancesStop b ok0] @ W" "\<forall>e\<in>set W. \<not> isCommand e" by blast
    from e w have "(A @ [InstancesGet b (Some ''RUNNING''), Log (IsRunningStopping b)])
        @ InstancesStop b ok0 # W = pre @ InstancesStop b' ok # post" by simp
    moreover have "isStop (InstancesStop b' ok)" by simp
    moreover have "\<forall>e\<in>set (A @ [InstancesGet b (Some ''RUNNING''), Log (IsRunningStopping b)]).
        \<not> isStop e" using a by (simp add: ball_Un)
    moreover have "\<forall>e\<in>set W. \<not> isStop e" using w(2) isStop_isCommand by blast
    ultimately have "pre = A @ [InstancesGet b (Some ''RUNNING''), Log (IsRunningStopping b)]
        \<and> InstancesStop b' ok = InstancesStop b ok0 \<and> post = W"
      by (rule split_unique)
    then show ?thesis by simp
  qed
qed

theorem stop_only_when_reported_running_witness:
  "emitted idleInMaintenance (snd (stopBuildBoxAsync sim 3 ''build1-api'' idleInMaintenance))
     = [NodeInfoGet ''build1-api'' (Decoded (regInfo True True True None)),
        NodeInfoGet ''build1-api'' (Decoded (regInfo True True True None)),
        InstancesGet ''build1-api'' (Some ''RUNNING''),
        Log (IsRunningStopping ''build1-api'')]
       @ InstancesStop ''build1-api'' True #
       [InstancesGet ''build1-api'' (Some ''TERMINATED''),
        Log (StatusChanged ''build1-api'' ''TERMINATED''),
        Log (StatusReached ''build1-api'' ''TERMINATED'')]
   \<and> (\<exists>pre'. [NodeInfoGet ''build1-api'' (Decoded (regInfo True True True None)),
               NodeInfoGet ''build1-api'' (Decoded (regInfo True True True None)),
               InstancesGet ''build1-api'' (Some ''RUNNING''),
               Log (IsRunningStopping ''build1-api'')]
              = pre' @ [InstancesGet ''build1-api'' (Some ''RUNNING''),
                        Log (IsRunningStopping ''build1-api'')])"
proof -
  have run: "stopBuildBoxAsync sim 3 ''build1-api'' idleInMaintenance
      = (fst (stopBuildBoxAsync sim 3 ''build1-api'' idleInMaintenance),
         snd (stopBuildBoxAsync sim 3 ''build1-api'' idleInMaintenance))"
    by simp
  have new: "emitted idleInMaintenance
        (snd (stopBuildBoxAsync sim 3 ''build1-api'' idleInMaintenance))
     = [NodeInfoGet ''build1-api'' (Decoded (regInfo True True True None)),
        NodeInfoGet ''build1-api'' (Decoded (regInfo True True True None)),
        InstancesGet ''build1-api'' (Some ''RUNNING''),
        Log (IsRunningStopping ''build1-api'')]
       @ InstancesStop ''build1-api'' True #
       [InstancesGet ''build1-api'' (Some ''TERMINATED''),
        Log (StatusChanged ''build1-api'' ''TERMINATED''),
        Log (StatusReached ''build1-api'' ''TERMINATED'')]"
    by (simp add: run_idleInMaintenance) (simp add: emitted_def idleInMaintenance_def startState_def)
  show ?thesis
    by (rule conjI [OF new conjunct2 [OF stop_only_when_reported_running [OF run new]]])
qed

section \<open>Take-offline and the maintenance flag\<close>

lemma run_idleTogglesFail:
  "stopBuildBoxAsync sim 3 ''build1-api'' idleTogglesFail =
   (Inr (),
    \<lparr>world = (boxWorld (regInfo True False False (Some ''Linux (amd64)'')) ''TERMINATED'')
                \<lparr>togglesWork := False\<rparr>,
     clock = 0,
     trace =
       [NodeInfoGet ''build1-api'' (Decoded (regInfo True False False (Some ''Linux (amd64)''))),
        NodeInfoGet ''build1-api'' (Decoded (regInfo True False False (Some ''Linux (amd64)''))),
        Log (NotOfflineTogglingOffline ''build1-api''),
        ToggleNodeStatus ''build1-api'' ''offline'' False,
        InstancesGet ''build1-api'' (Some ''RUNNING''),
        Log (IsRunningStopping ''build1-api''),
        InstancesStop ''build1-api'' True,
        InstancesGet ''build1-api'' (Some ''TERMINATED''),
        Log (StatusChanged ''build1-api'' ''TERMINATED''),
        Log (StatusReached ''build1-api'' ''TERMINATED'')]\<rparr>)"
  by (simp add: run_defs idleTogglesFail_def eval_nat_numeral)

text \<open>
  The claim C5 as the specification states it asks for more than the code does: a failed
  toggle does not keep the transition from the stop step. With a CI master that refuses
  the toggle, a box that is idle, not in maintenance, with a running instance: the toggle
  fails, the stop request is sent all the same, and the box is stopped with its
  maintenance flag still clear.
\<close>

theorem stop_after_failed_toggle_counterexample:
  "fst (stopBuildBoxAsync sim 3 ''build1-api'' idleTogglesFail) = Inr ()
   \<and> emitted idleTogglesFail (snd (stopBuildBoxAsync sim 3 ''build1-api'' idleTogglesFail))
     = [NodeInfoGet ''build1-api'' (Decoded (regInfo True False False (Some ''Linux (amd64)''))),
        NodeInfoGet ''build1-api'' (Decoded (regInfo True False False (Some ''Linux (amd64)''))),
        Log (NotOfflineTogglingOffline ''build1-api''),
        ToggleNodeStatus ''build1-api'' ''offline'' False,
        InstancesGet ''build1-api'' (Some ''RUNNING''),
        Log (IsRunningStopping ''build1-api''),
        InstancesStop ''build1-api'' True,
        InstancesGet ''build1-api'' (Some ''TERMINATED''),
        Log (StatusChanged ''build1-api'' ''TERMINATED''),
        Log (StatusReached ''build1-api'' ''TERMINATED'')]
   \<and> map_of (nodes (world (snd (stopBuildBoxAsync sim 3 ''build1-api'' idleTogglesFail))))
        ''build1-api''
     = Some (regInfo True False False (Some ''Linux (amd64)''))
   \<and> \<not> TemporarilyOffline (regInfo True False False (Some ''Linux (amd64)''))"
  by (simp add: run_idleTogglesFail)
     (simp add: emitted_def idleTogglesFail_def startState_def boxWorld_def simWorld0_def
        regInfo_def)

text \<open>
  C5, amended. In every run of \<^verbatim>\<open>stopBuildBoxAsync\<close> on box \<open>b\<close>, whatever the
  collaborators answer (the events of the run replay against them):

  A stop request is for \<open>b\<close> and comes only after the CI master reported \<open>b\<close> idle and then
  either reported it in maintenance (\<open>TemporarilyOffline = True\<close>), in which case no toggle
  is sent, or did not (the flag clear, or a body that does not decode), in which case the
  toggle to \<^verbatim>\<open>"offline"\<close> was sent once, with whatever outcome \<open>okT\<close>. It directly
  follows the report of the instance \<^verbatim>\<open>RUNNING\<close>, and no command follows it.

  A toggle is sent only for \<open>b\<close>, with the label \<^verbatim>\<open>"offline"\<close>, and only right after the
  read that did not report \<open>b\<close> in maintenance. Its result is not looked at: whether it
  was accepted or refused (\<open>okT\<close>), the next request is the look at the instance, and when
  that reports \<^verbatim>\<open>RUNNING\<close> the stop request follows in the same run.
\<close>

theorem stop_only_after_maintenance_step:
  assumes "stopBuildBoxAsync E fuel b s = (res, s')"
  shows "replay E (emitted s s') (world s) = Some (world s')
    \<and> (\<forall>pre b' ok post. emitted s s' = pre @ InstancesStop b' ok # post \<longrightarrow>
         b' = b
         \<and> (\<exists>d1 r2 M. Idle d1
              \<and> pre = NodeInfoGet b (Decoded d1) # infoEvents b r2 @ M
                      @ [InstancesGet b (Some ''RUNNING''), Log (IsRunningStopping b)]
              \<and> ((\<exists>d. r2 = Decoded d \<and> TemporarilyOffline d) \<and> M = []
                 \<or> (r2 = Undecodable \<or> (\<exists>d. r2 = Decoded d \<and> \<not> TemporarilyOffline d))
                   \<and> (\<exists>okT. M = Log (NotOfflineTogglingOffline b)
                                 # toggleEvents b ''offline'' okT)))
         \<and> (\<forall>e\<in>set post. \<not> isCommand e))
    \<and> (\<forall>pre b' m okT post. emitted s s' = pre @ ToggleNodeStatus b' m okT # post \<longrightarrow>
         b' = b \<and> m = ''offline''
         \<and> (\<exists>d1 r2. Idle d1
              \<and> (r2 = Undecodable \<or> (\<exists>d. r2 = Decoded d \<and> \<not> TemporarilyOffline d))
              \<and> pre = NodeInfoGet b (Decoded d1) # infoEvents b r2
                      @ [Log (NotOfflineTogglingOffline b)])
         \<and> (\<exists>g rest. post = (if okT then [Log (WasToggled b ''offline'')] else [])
                              @ InstancesGet b g # rest
              \<and> (if g = Some ''RUNNING''
                  then \<exists>ok W. rest = Log (IsRunningStopping b) # InstancesStop b ok # W
                  else rest = (if g = None then [Log GetInstanceFailed] else []))))"
proof (intro conjI allI impI)
  from stopBuildBoxAsync_faithful [OF assms] obtain new where
    "trace s' = trace s @ new" "replay E new (world s) = Some (world s')"
    by (auto simp: faithful_def)
  then show "replay E (emitted s s') (world s) = Some (world s')"
    by (simp add: emitted_def)
next
  fix pre b' ok post
  assume e: "emitted s s' = pre @ InstancesStop b' ok # post"
  let ?goal = "b' = b
         \<and> (\<exists>d1 r2 M. Idle d1
              \<and> pre = NodeInfoGet b (Decoded d1) # infoEvents b r2 @ M
                      @ [InstancesGet b (Some ''RUNNING''), Log (IsRunningStopping b)]
              \<and> ((\<exists>d. r2 = Decoded d \<and> TemporarilyOffline d) \<and> M = []
                 \<or> (r2 = Undecodable \<or> (\<exists>d. r2 = Decoded d \<and> \<not> TemporarilyOffline d))
                   \<and> (\<exists>okT. M = Log (NotOfflineTogglingOffline b)
                                 # toggleEvents b ''offline'' okT)))
         \<and> (\<forall>e\<in>set post. \<not> isCommand e)"
  from stopBuildBoxAsync_run [OF assms] consider
    (quiet) new where "trace s' = trace s @ new" "\<forall>e\<in>set new. \<not> isCommand e"
  | (kept) d1 d2 En where "Idle d1" "TemporarilyOffline d2" "stopStep b En"
      "trace s' = trace s @ NodeInfoGet b (Decoded d1) # NodeInfoGet b (Decoded d2) # En"
  | (toggled) d1 r2 okT En where "Idle d1"
      "r2 = Undecodable \<or> (\<exists>d. r2 = Decoded d \<and> \<not> TemporarilyOffline d)" "stopStep b En"
      "trace s' = trace s @ NodeInfoGet b (Decoded d1) # infoEvents b r2
               @ Log (NotOfflineTogglingOffline b) # toggleEvents b ''offline'' okT @ En"
    by blast
  then have ?goal
  proof cases
    case quiet
    from quiet(1) e have "new = pre @ InstancesStop b' ok # post" by (simp add: emitted_def)
    with quiet(2) have False by auto
    then show ?thesis ..
  next
    case kept
    let ?X = "[NodeInfoGet b (Decoded d1), NodeInfoGet b (Decoded d2)]"
    from kept(4) e have "?X @ En = pre @ InstancesStop b' ok # post" by (simp add: emitted_def)
    moreover have "\<forall>e\<in>set ?X. \<not> isStop e" by simp
    ultimately have r: "b' = b \<and> pre = ?X @ [InstancesGet b (Some ''RUNNING''),
        Log (IsRunningStopping b)] \<and> (\<forall>e\<in>set post. \<not> isCommand e)"
      using kept(3) by (rule stop_in_run)
    have "\<exists>d1 r2 M. Idle d1
              \<and> pre = NodeInfoGet b (Decoded d1) # infoEvents b r2 @ M
                      @ [InstancesGet b (Some ''RUNNING''), Log (IsRunningStopping b)]
              \<and> ((\<exists>d. r2 = Decoded d \<and> TemporarilyOffline d) \<and> M = []
                 \<or> (r2 = Undecodable \<or> (\<exists>d. r2 = Decoded d \<and> \<not> TemporarilyOffline d))
                   \<and> (\<exists>okT. M = Log (NotOfflineTogglingOffline b)
                                 # toggleEvents b ''offline'' okT))"
      by (rule exI [of _ d1], rule exI [of _ "Decoded d2"], rule exI [of _ "[]"])
         (use r kept(1,2) in \<open>simp add: infoEvents_def\<close>)
    with r show ?thesis by blast
  next
    case toggled
    let ?M = "Log (NotOfflineTogglingOffline b) # toggleEvents b ''offline'' okT"
    let ?X = "NodeInfoGet b (Decoded d1) # infoEvents b r2 @ ?M"
    from toggled(4) e have "?X @ En = pre @ InstancesStop b' ok # post" by (simp add: emitted_def)
    moreover have "\<forall>e\<in>set ?X. \<not> isStop e" by (simp add: ball_Un)
    ultimately have r: "b' = b \<and> pre = ?X @ [InstancesGet b (Some ''RUNNING''),
        Log (IsRunningStopping b)] \<and> (\<forall>e\<in>set post. \<not> isCommand e)"
      using toggled(3) by (rule stop_in_run)
    have "\<exists>d1 r2 M. Idle d1
              \<and> pre = NodeInfoGet b (Decoded d1) # infoEvents b r2 @ M
                      @ [InstancesGet b (Some ''RUNNING''), Log (IsRunningStopping b)]
              \<and> ((\<exists>d. r2 = Decoded d \<and> TemporarilyOffline d) \<and> M = []
                 \<or> (r2 = Undecodable \<or> (\<exists>d. r2 = Decoded d \<and> \<not> TemporarilyOffline d))
                   \<and> (\<exists>okT. M = Log (NotOfflineTogglingOffline b)
                                 # toggleEvents b ''offline'' okT))"
      by (rule exI [of _ d1], rule exI [of _ r2], rule exI [of _ ?M])
         (use r toggled(1,2) in auto)
    with r show ?thesis by blast
  qed
  then show "b' = b" and "\<exists>d1 r2 M. Idle d1
              \<and> pre = NodeInfoGet b (Decoded d1) # infoEvents b r2 @ M
                      @ [InstancesGet b (Some ''RUNNING''), Log (IsRunningStopping b)]
              \<and> ((\<exists>d. r2 = Decoded d \<and> TemporarilyOffline d) \<and> M = []
                 \<or> (r2 = Undecodable \<or> (\<exists>d. r2 = Decoded d \<and> \<not> TemporarilyOffline d))
                   \<and> (\<exists>okT. M = Log (NotOfflineTogglingOffline b)
                                 # toggleEvents b ''offline'' okT))"
    and "\<forall>e\<in>set post. \<not> isCommand e"
    by blast+
next
  fix pre b' m okT post
  assume e: "emitted s s' = pre @ ToggleNodeStatus b' m okT # post"
  let ?goal = "b' = b \<and> m = ''offline''
         \<and> (\<exists>d1 r2. Idle d1
              \<and> (r2 = Undecodable \<or> (\<exists>d. r2 = Decoded d \<and> \<not> TemporarilyOffline d))
              \<and> pre = NodeInfoGet b (Decoded d1) # infoEvents b r2
                      @ [Log (NotOfflineTogglingOffline b)])
         \<and> (\<exists>g rest. post = (if okT then [Log (WasToggled b ''offline'')] else [])
                              @ InstancesGet b g # rest
              \<and> (if g = Some ''RUNNING''
                  then \<exists>ok W. rest = Log (IsRunningStopping b) # InstancesStop b ok # W
                  else rest = (if g = None then [Log GetInstanceFailed] else [])))"
  from stopBuildBoxAsync_run [OF assms] consider
    (quiet) new where "trace s' = trace s @ new" "\<forall>e\<in>set new. \<not> isCommand e"
  | (kept) d1 d2 En where "Idle d1" "TemporarilyOffline d2" "stopStep b En"
      "trace s' = trace s @ NodeInfoGet b (Decoded d1) # NodeInfoGet b (Decoded d2) # En"
  | (toggled) d1 r2 okT0 En where "Idle d1"
      "r2 = Undecodable \<or> (\<exists>d. r2 = Decoded d \<and> \<not> TemporarilyOffline d)" "stopStep b En"
      "trace s' = trace s @ NodeInfoGet b (Decoded d1) # infoEvents b r2
               @ Log (NotOfflineTogglingOffline b) # toggleEvents b ''offline'' okT0 @ En"
    by blast
  then have ?goal
  proof cases
    case quiet
    from quiet(1) e have "new = pre @ ToggleNodeStatus b' m okT # post" by (simp add: emitted_def)
    with quiet(2) have False by auto
    then show ?thesis ..
  next
    case kept
    from kept(4) e have "NodeInfoGet b (Decoded d1) # NodeInfoGet b (Decoded d2) # En
        = pre @ ToggleNodeStatus b' m okT # post" by (simp add: emitted_def)
    moreover have "\<forall>e\<in>set (NodeInfoGet b (Decoded d1) # NodeInfoGet b (Decoded d2) # En).
        \<not> isToggle e"
      using stopStep_quiet [OF kept(3)] by simp
    ultimately have False by auto
    then show ?thesis ..
  next
    case toggled
    let ?X = "NodeInfoGet b (Decoded d1) # infoEvents b r2 @ [Log (NotOfflineTogglingOffline b)]"
    let ?Y = "(if okT0 then [Log (WasToggled b ''offline'')] else []) @ En"
    from toggled(4) e have "?X @ ToggleNodeStatus b ''offline'' okT0 # ?Y
        = pre @ ToggleNodeStatus b' m okT # post"
      by (simp add: emitted_def toggleEvents_def)
    moreover have "\<forall>e\<in>set ?X. \<not> isToggle e" by (simp add: ball_Un infoEvents_def)
    moreover have "\<forall>e\<in>set ?Y. \<not> isToggle e"
      using stopStep_quiet [OF toggled(3)] by (simp add: ball_Un)
    ultimately have r: "pre = ?X \<and> b' = b \<and> m = ''offline'' \<and> okT = okT0 \<and> post = ?Y"
      by (rule toggle_in_run)
    from stopStep_first [OF toggled(3)] obtain g rest where
      g: "En = InstancesGet b g # rest"
        "if g = Some ''RUNNING''
         then \<exists>ok W. rest = Log (IsRunningStopping b) # InstancesStop b ok # W
         else rest = (if g = None then [Log GetInstanceFailed] else [])"
      by blast
    have 1: "\<exists>d1 r2. Idle d1
              \<and> (r2 = Undecodable \<or> (\<exists>d. r2 = Decoded d \<and> \<not> TemporarilyOffline d))
              \<and> pre = NodeInfoGet b (Decoded d1) # infoEvents b r2
                      @ [Log (NotOfflineTogglingOffline b)]"
      using r toggled(1,2) by blast
    have 2: "\<exists>g rest. post = (if okT then [Log (WasToggled b ''offline'')] else [])
                              @ InstancesGet b g # rest
              \<and> (if g = Some ''RUNNING''
                  then \<exists>ok W. rest = Log (IsRunningStopping b) # InstancesStop b ok # W
                  else rest = (if g = None then [Log GetInstanceFailed] else []))"
      by (rule exI [of _ g], rule exI [of _ rest]) (use r g in simp)
    from r 1 2 show ?thesis by blast
  qed
  then show "b' = b" and "m = ''offline''" and "\<exists>d1 r2. Idle d1
              \<and> (r2 = Undecodable \<or> (\<exists>d. r2 = Decoded d \<and> \<not> TemporarilyOffline d))
              \<and> pre = NodeInfoGet b (Decoded d1) # infoEvents b r2
                      @ [Log (NotOfflineTogglingOffline b)]"
    and "\<exists>g rest. post = (if okT then [Log (WasToggled b ''offline'')] else [])
                              @ InstancesGet b g # rest
              \<and> (if g = Some ''RUNNING''
                  then \<exists>ok W. rest = Log (IsRunningStopping b) # InstancesStop b ok # W
                  else rest = (if g = None then [Log GetInstanceFailed] else []))"
    by blast+
qed

lemma emitted_idleTogglesFail:
  "emitted idleTogglesFail
     \<lparr>world = (boxWorld (regInfo True False False (Some ''Linux (amd64)'')) ''TERMINATED'')
                \<lparr>togglesWork := False\<rparr>,
      clock = 0,
      trace =
       [NodeInfoGet ''build1-api'' (Decoded (regInfo True False False (Some ''Linux (amd64)''))),
        NodeInfoGet ''build1-api'' (Decoded (regInfo True False False (Some ''Linux (amd64)''))),
        Log (NotOfflineTogglingOffline ''build1-api''),
        ToggleNodeStatus ''build1-api'' ''offline'' False,
        InstancesGet ''build1-api'' (Some ''RUNNING''),
        Log (IsRunningStopping ''build1-api''),
        InstancesStop ''build1-api'' True,
        InstancesGet ''build1-api'' (Some ''TERMINATED''),
        Log (StatusChanged ''build1-api'' ''TERMINATED''),
        Log (StatusReached ''build1-api'' ''TERMINATED'')]\<rparr>
   = [NodeInfoGet ''build1-api'' (Decoded (regInfo True False False (Some ''Linux (amd64)''))),
      NodeInfoGet ''build1-api'' (Decoded (regInfo True False False (Some ''Linux (amd64)''))),
      Log (NotOfflineTogglingOffline ''build1-api''),
      ToggleNodeStatus ''build1-api'' ''offline'' False,
      InstancesGet ''build1-api'' (Some ''RUNNING''),
      Log (IsRunningStopping ''build1-api''),
      InstancesStop ''build1-api'' True,
      InstancesGet ''build1-api'' (Some ''TERMINATED''),
      Log (StatusChanged ''build1-api'' ''TERMINATED''),
      Log (StatusReached ''build1-api'' ''TERMINATED'')]"
  by (simp add: emitted_def idleTogglesFail_def startState_def)

theorem stop_only_after_maintenance_step_witness:
  "stopBuildBoxAsync sim 3 ''build1-api'' idleTogglesFail =
   (Inr (),
    \<lparr>world = (boxWorld (regInfo True False False (Some ''Linux (amd64)'')) ''TERMINATED'')
                \<lparr>togglesWork := False\<rparr>,
     clock = 0,
     trace =
       [NodeInfoGet ''build1-api'' (Decoded (regInfo True False False (Some ''Linux (amd64)''))),
        NodeInfoGet ''build1-api'' (Decoded (regInfo True False False (Some ''Linux (amd64)''))),
        Log (NotOfflineTogglingOffline ''build1-api''),
        ToggleNodeStatus ''build1-api'' ''offline'' False,
        InstancesGet ''build1-api'' (Some ''RUNNING''),
        Log (IsRunningStopping ''build1-api''),
        InstancesStop ''build1-api'' True,
        InstancesGet ''build1-api'' (Some ''TERMINATED''),
        Log (StatusChanged ''build1-api'' ''TERMINATED''),
        Log (StatusReached ''build1-api'' ''TERMINATED'')]\<rparr>)
   \<and> (\<exists>d1 r2 M. Idle d1
        \<and> [NodeInfoGet ''build1-api''
             (Decoded (regInfo True False False (Some ''Linux (amd64)''))),
           NodeInfoGet ''build1-api''
             (Decoded (regInfo True False False (Some ''Linux (amd64)''))),
           Log (NotOfflineTogglingOffline ''build1-api''),
           ToggleNodeStatus ''build1-api'' ''offline'' False,
           InstancesGet ''build1-api'' (Some ''RUNNING''),
           Log (IsRunningStopping ''build1-api'')]
          = NodeInfoGet ''build1-api'' (Decoded d1) # infoEvents ''build1-api'' r2 @ M
              @ [InstancesGet ''build1-api'' (Some ''RUNNING''),
                 Log (IsRunningStopping ''build1-api'')]
        \<and> ((\<exists>d. r2 = Decoded d \<and> TemporarilyOffline d) \<and> M = []
           \<or> (r2 = Undecodable \<or> (\<exists>d. r2 = Decoded d \<and> \<not> TemporarilyOffline d))
             \<and> (\<exists>okT. M = Log (NotOfflineTogglingOffline ''build1-api'')
                           # toggleEvents ''build1-api'' ''offline'' okT)))
   \<and> (\<exists>g rest.
        [InstancesGet ''build1-api'' (Some ''RUNNING''),
         Log (IsRunningStopping ''build1-api''),
         InstancesStop ''build1-api'' True,
         InstancesGet ''build1-api'' (Some ''TERMINATED''),
         Log (StatusChanged ''build1-api'' ''TERMINATED''),
         Log (StatusReached ''build1-api'' ''TERMINATED'')]
        = (if False then [Log (WasToggled ''build1-api'' ''offline'')] else [])
            @ InstancesGet ''build1-api'' g # rest
        \<and> (if g = Some ''RUNNING''
            then \<exists>ok W. rest = Log (IsRunningStopping ''build1-api'')
                                 # InstancesStop ''build1-api'' ok # W
            else rest = (if g = None then [Log GetInstanceFailed] else [])))"
proof -
  let ?d = "Decoded (regInfo True False False (Some ''Linux (amd64)''))"
  let ?pre2 = "[NodeInfoGet ''build1-api'' ?d, NodeInfoGet ''build1-api'' ?d,
      Log (NotOfflineTogglingOffline ''build1-api'')]"
  let ?post2 = "[InstancesGet ''build1-api'' (Some ''RUNNING''),
      Log (IsRunningStopping ''build1-api''),
      InstancesStop ''build1-api'' True,
      InstancesGet ''build1-api'' (Some ''TERMINATED''),
      Log (StatusChanged ''build1-api'' ''TERMINATED''),
      Log (StatusReached ''build1-api'' ''TERMINATED'')]"
  let ?pre1 = "[NodeInfoGet ''build1-api'' ?d, NodeInfoGet ''build1-api'' ?d,
      Log (NotOfflineTogglingOffline ''build1-api''),
      ToggleNodeStatus ''build1-api'' ''offline'' False,
      InstancesGet ''build1-api'' (Some ''RUNNING''),
      Log (IsRunningStopping ''build1-api'')]"
  let ?post1 = "[InstancesGet ''build1-api'' (Some ''TERMINATED''),
      Log (StatusChanged ''build1-api'' ''TERMINATED''),
      Log (StatusReached ''build1-api'' ''TERMINATED'')]"
  let ?new = "?pre1 @ InstancesStop ''build1-api'' True # ?post1"
  note t = stop_only_after_maintenance_step [OF run_idleTogglesFail,
      unfolded emitted_idleTogglesFail]
  have split1: "[NodeInfoGet ''build1-api'' ?d, NodeInfoGet ''build1-api'' ?d,
      Log (NotOfflineTogglingOffline ''build1-api''),
      ToggleNodeStatus ''build1-api'' ''offline'' False,
      InstancesGet ''build1-api'' (Some ''RUNNING''),
      Log (IsRunningStopping ''build1-api''),
      InstancesStop ''build1-api'' True,
      InstancesGet ''build1-api'' (Some ''TERMINATED''),
      Log (StatusChanged ''build1-api'' ''TERMINATED''),
      Log (StatusReached ''build1-api'' ''TERMINATED'')]
     = ?pre1 @ InstancesStop ''build1-api'' True # ?post1"
    by simp
  have split2: "[NodeInfoGet ''build1-api'' ?d, NodeInfoGet ''build1-api'' ?d,
      Log (NotOfflineTogglingOffline ''build1-api''),
      ToggleNodeStatus ''build1-api'' ''offline'' False,
      InstancesGet ''build1-api'' (Some ''RUNNING''),
      Log (IsRunningStopping ''build1-api''),
      InstancesStop ''build1-api'' True,
      InstancesGet ''build1-api'' (Some ''TERMINATED''),
      Log (StatusChanged ''build1-api'' ''TERMINATED''),
      Log (StatusReached ''build1-api'' ''TERMINATED'')]
     = ?pre2 @ ToggleNodeStatus ''build1-api'' ''offline'' False # ?post2"
    by simp
  note a = t [THEN conjunct2, THEN conjunct1, rule_format, OF split1,
      THEN conjunct2, THEN conjunct1]
  note b = t [THEN conjunct2, THEN conjunct2, rule_format, OF split2,
      THEN conjunct2, THEN conjunct2, THEN conjunct2]
  show ?thesis
    by (rule conjI [OF run_idleTogglesFail conjI [OF a b]])
qed


section \<open>Reads that fail\<close>

text \<open>
  A body that does not decode is logged and read as the zero value: queue size 0, and a
  node with every flag false and no agent.
\<close>

lemma fetchQueueSize_undecodable:
  "getQueue E (world s) = (Undecodable, w) \<Longrightarrow>
   fetchQueueSize E s
   = (Inr 0, s\<lparr>world := w, trace := trace s @ [QueueGet Undecodable, Log QueueUndecodable]\<rparr>)"
  by (simp add: fetchQueueSize_def emit_def)

lemma fetchNodeInfo_undecodable:
  "getNodeInfo E b (world s) = (Undecodable, w) \<Longrightarrow>
   fetchNodeInfo E b s
   = (Inr zeroInfo,
      s\<lparr>world := w, trace := trace s @ [NodeInfoGet b Undecodable, Log (NodeInfoUndecodable b)]\<rparr>)"
  by (simp add: fetchNodeInfo_def emit_def)

text \<open>
  A request that gets no response is another matter: \<^verbatim>\<open>Do\<close> returns a nil response,
  and both reads dereference it before they look at any error.
\<close>

lemma fetchQueueSize_DoFailed:
  "getQueue E (world s) = (DoFailed, w) \<Longrightarrow>
   fetchQueueSize E s = (Inl Panic, s\<lparr>world := w, trace := trace s @ [QueueGet DoFailed]\<rparr>)"
  by (simp add: fetchQueueSize_def emit_def)

lemma fetchNodeInfo_DoFailed:
  "getNodeInfo E b (world s) = (DoFailed, w) \<Longrightarrow>
   fetchNodeInfo E b s = (Inl Panic, s\<lparr>world := w, trace := trace s @ [NodeInfoGet b DoFailed]\<rparr>)"
  by (simp add: fetchNodeInfo_def emit_def)

lemmas process_defs = mainProcess_def mainFlags_def flag_Int_def flag_Bool_def noFlags_def
  derefInt_def derefBool_def initialWorkersPerBuildBox_def initialBuildBoxesPool_def
  pollCycle_def fetchQueueSize_def stopBuildBoxes_def asGoroutine_def

text \<open>
  C3 does not hold of the code where the CI master cannot be reached. The read of the
  queue panics in the main goroutine: the deferred function of \<^verbatim>\<open>main\<close> logs the panic
  and the process exits with status 1. The read of a node panics in the goroutine of a
  task, and the process ends with status 2. Neither read is taken as its default.
\<close>

theorem unreachable_ci_master_ends_the_process:
  "fetchQueueSize sim queueDown = (Inl Panic, queueDown\<lparr>trace := [QueueGet DoFailed]\<rparr>)
   \<and> mainProcess flagParse (\<lambda>_. True) sim 3 1 [] queueDown
       = (Exited 1, queueDown\<lparr>trace := [QueueGet DoFailed, Log RecoveredPanic]\<rparr>)
   \<and> fetchNodeInfo sim ''build1-api'' nodesDown
       = (Inl Panic, nodesDown\<lparr>trace := [NodeInfoGet ''build1-api'' DoFailed]\<rparr>)
   \<and> mainProcess flagParse (\<lambda>_. True) sim 3 1 [''build1-api''] nodesDown
       = (Exited 2,
          nodesDown\<lparr>trace := [QueueGet (Decoded \<lparr>Items = []\<rparr>), Log (QueueSizeIs 0),
                               Log CheckingIdle, NodeInfoGet ''build1-api'' DoFailed]\<rparr>)"
proof (intro conjI)
  show "fetchQueueSize sim queueDown = (Inl Panic, queueDown\<lparr>trace := [QueueGet DoFailed]\<rparr>)"
    by (simp add: run_defs queueDown_def fetchQueueSize_def)
  show "mainProcess flagParse (\<lambda>_. True) sim 3 1 [] queueDown
       = (Exited 1, queueDown\<lparr>trace := [QueueGet DoFailed, Log RecoveredPanic]\<rparr>)"
    by (simp add: process_defs run_defs queueDown_def)
  show "fetchNodeInfo sim ''build1-api'' nodesDown
       = (Inl Panic, nodesDown\<lparr>trace := [NodeInfoGet ''build1-api'' DoFailed]\<rparr>)"
    by (simp add: run_defs nodesDown_def)
  show "mainProcess flagParse (\<lambda>_. True) sim 3 1 [''build1-api''] nodesDown
       = (Exited 2,
          nodesDown\<lparr>trace := [QueueGet (Decoded \<lparr>Items = []\<rparr>), Log (QueueSizeIs 0),
                               Log CheckingIdle, NodeInfoGet ''build1-api'' DoFailed]\<rparr>)"
    by (simp add: process_defs run_defs nodesDown_def)
qed

section \<open>The status waiter\<close>

lemma observed_simps [simp]:
  "observed [] = []"
  "observed (InstancesGet b (Some x) # es) = x # observed es"
  "observed (InstancesGet b None # es) = observed es"
  "observed (Log m # es) = observed es"
  "observed (Slept n # es) = observed es"
  "observed (xs @ ys) = observed xs @ observed ys"
  by (simp_all add: observed_def List.map_filter_def)

lemma changes_simps [simp]:
  "changes [] = []"
  "changes (InstancesGet b r # es) = changes es"
  "changes (Log (StatusChanged b x) # es) = x # changes es"
  "changes (Log (GetInstanceFailedFor b) # es) = changes es"
  "changes (Log (StatusReached b x) # es) = changes es"
  "changes (Slept n # es) = changes es"
  "changes (xs @ ys) = changes xs @ changes ys"
  by (simp_all add: changes_def List.map_filter_def)

lemma remdups_adj_head: "remdups_adj (x # xs) = x # tl (remdups_adj (x # xs))"
  by (cases xs) (auto simp: remdups_adj_Cons split: list.splits)

lemma tl_remdups_adj_step:
  "tl (remdups_adj (p # x # xs))
   = (if p \<noteq> x then [x] else []) @ tl (remdups_adj (x # xs))"
proof (cases "p = x")
  case True
  then show ?thesis by simp
next
  case False
  then have "tl (remdups_adj (p # x # xs)) = remdups_adj (x # xs)" by simp
  also have "\<dots> = x # tl (remdups_adj (x # xs))" by (rule remdups_adj_head)
  finally show ?thesis using False by simp
qed

lemma waitLoop_spec:
  "waitLoop E b st prev fuel s = (res, s') \<Longrightarrow>
   \<exists>new. trace s' = trace s @ new
     \<and> (res = Inr () \<or> res = Inl OutOfFuel)
     \<and> (res = Inr () \<longrightarrow> (\<exists>xs. observed new = xs @ [st] \<and> st \<notin> set xs))
     \<and> (res = Inl OutOfFuel \<longrightarrow> st \<notin> set (observed new) \<and> length (filter isPoll new) = fuel)
     \<and> changes new = tl (remdups_adj (prev # observed new))
     \<and> length (filter isFailureLog new) = length (filter isFailedPoll new)"
proof (induction fuel arbitrary: s prev)
  case 0
  then show ?case by auto
next
  case (Suc fuel)
  obtain r w where g: "instancesGet E b (world s) = (r, w)" by (cases "instancesGet E b (world s)")
  show ?case
  proof (cases r)
    case None
    let ?s1 = "emit (Log (GetInstanceFailedFor b)) (emit (InstancesGet b None) (s\<lparr>world := w\<rparr>))"
    from Suc.prems g None have "waitLoop E b st prev fuel ?s1 = (res, s')" by simp
    from Suc.IH [OF this] obtain new where n: "trace s' = trace ?s1 @ new"
      "res = Inr () \<or> res = Inl OutOfFuel"
      "res = Inr () \<longrightarrow> (\<exists>xs. observed new = xs @ [st] \<and> st \<notin> set xs)"
      "res = Inl OutOfFuel \<longrightarrow> st \<notin> set (observed new) \<and> length (filter isPoll new) = fuel"
      "changes new = tl (remdups_adj (prev # observed new))"
      "length (filter isFailureLog new) = length (filter isFailedPoll new)"
      by blast
    show ?thesis
      by (rule exI [of _ "InstancesGet b None # Log (GetInstanceFailedFor b) # new"])
         (use n in \<open>simp add: emit_def\<close>)
  next
    case (Some x)
    let ?c = "if prev \<noteq> x then [Log (StatusChanged b x)] else []"
    show ?thesis
    proof (cases "x = st")
      case True
      with Suc.prems g Some have
        "res = Inr ()" "trace s' = trace s @ InstancesGet b (Some x) # ?c @ [Log (StatusReached b st)]"
        by (auto simp: emit_def Let_def)
      with True show ?thesis
        by (intro exI [of _ "InstancesGet b (Some x) # ?c @ [Log (StatusReached b st)]"])
           (auto intro: exI [of _ "[]"])
    next
      case False
      let ?s2 = "snd (sleepFor E 3 (if prev \<noteq> x
                        then emit (Log (StatusChanged b x)) (emit (InstancesGet b (Some x)) (s\<lparr>world := w\<rparr>))
                        else emit (InstancesGet b (Some x)) (s\<lparr>world := w\<rparr>)))"
      from Suc.prems g Some False have "waitLoop E b st x fuel ?s2 = (res, s')"
        by (auto simp: Let_def)
      from Suc.IH [OF this] obtain new where n: "trace s' = trace ?s2 @ new"
        "res = Inr () \<or> res = Inl OutOfFuel"
        "res = Inr () \<longrightarrow> (\<exists>xs. observed new = xs @ [st] \<and> st \<notin> set xs)"
        "res = Inl OutOfFuel \<longrightarrow> st \<notin> set (observed new) \<and> length (filter isPoll new) = fuel"
        "changes new = tl (remdups_adj (x # observed new))"
        "length (filter isFailureLog new) = length (filter isFailedPoll new)"
        by blast
      have t: "trace ?s2 = trace s @ InstancesGet b (Some x) # ?c @ [Slept 3]"
        by (simp add: sleepFor_def emit_def)
      let ?new = "InstancesGet b (Some x) # ?c @ Slept 3 # new"
      have 1: "trace s' = trace s @ ?new" using n(1) t by simp
      have 3: "res = Inr () \<longrightarrow> (\<exists>xs. observed ?new = xs @ [st] \<and> st \<notin> set xs)"
      proof
        assume "res = Inr ()"
        with n(3) obtain xs where "observed new = xs @ [st]" "st \<notin> set xs" by blast
        with False have "observed ?new = (x # xs) @ [st] \<and> st \<notin> set (x # xs)" by auto
        then show "\<exists>xs. observed ?new = xs @ [st] \<and> st \<notin> set xs" by blast
      qed
      have 4: "res = Inl OutOfFuel \<longrightarrow> st \<notin> set (observed ?new) \<and> length (filter isPoll ?new) = Suc fuel"
        using n(4) False by auto
      have 5: "changes ?new = tl (remdups_adj (prev # observed ?new))"
        using n(5) by (simp add: tl_remdups_adj_step del: remdups_adj.simps)
      have 6: "length (filter isFailureLog ?new) = length (filter isFailedPoll ?new)"
        using n(6) by simp
      show ?thesis
        by (rule exI [of _ ?new]) (use 1 n(2) 3 4 5 6 in blast)
    qed
  qed
qed


text \<open>
  C9. \<^verbatim>\<open>waitForStatus\<close> on box \<open>b\<close> with target \<open>st\<close> does what the specification asks
  for, against the compute plane it is given. There are replies of the compute plane to
  the polls of \<open>b\<close> such that the events of the run are the specified ones for them: every
  poll is of \<open>b\<close>, an error is logged and the poll made again at once, a status is logged
  exactly when it differs from the one before (the empty string at first), and the waiter
  sleeps 3 seconds after a status that is not the target. The events replay against the
  environment: each reply in the trace is the one \<open>instancesGet E b\<close> gave in the world the
  calls before it left, and the world and the clock at the end are the ones the calls and
  the sleeps give. The waiter returns only at the first poll that \<open>E\<close> answers with the
  target: of the replies the last is the target and none before is. It never ends any other
  way: with fuel for \<open>fuel\<close> polls it returns or it has made all \<open>fuel\<close> polls, none
  answered with the target. In terms of the trace alone: of the statuses observed the last
  is the target and no earlier one is, the logged statuses are the observed ones with
  adjacent repetitions removed, and there is one error line for each failed poll.
\<close>

theorem waitForStatus_polls_until_target:
  assumes "waitForStatus E b st fuel s = (res, s')"
  shows "\<exists>replies.
       emitted s s' = specWaiterEvents b st [] replies
     \<and> trace s' = trace s @ emitted s s'
     \<and> replay E (emitted s s') (world s) = Some (world s')
     \<and> clock s' = clock s + elapsed (emitted s s')
     \<and> (res = Inr () \<and> (\<exists>pre. replies = pre @ [Some st] \<and> Some st \<notin> set pre)
        \<or> res = Inl OutOfFuel \<and> Some st \<notin> set replies \<and> length replies = fuel)
     \<and> (res = Inr () \<longrightarrow> (\<exists>xs. observed (emitted s s') = xs @ [st] \<and> st \<notin> set xs))
     \<and> (res = Inl OutOfFuel \<longrightarrow>
          st \<notin> set (observed (emitted s s')) \<and> length (filter isPoll (emitted s s')) = fuel)
     \<and> changes (emitted s s') = tl (remdups_adj ([] # observed (emitted s s')))
     \<and> length (filter isFailureLog (emitted s s')) = length (filter isFailedPoll (emitted s s'))"
proof -
  from assms have w: "waitLoop E b st [] fuel s = (res, s')" by (simp add: waitForStatus_def)
  from waitLoop_exact [OF w] obtain replies where x:
    "trace s' = trace s @ specWaiterEvents b st [] replies"
    "replay E (specWaiterEvents b st [] replies) (world s) = Some (world s')"
    "clock s' = clock s + elapsed (specWaiterEvents b st [] replies)"
    "res = Inr () \<and> (\<exists>pre. replies = pre @ [Some st] \<and> Some st \<notin> set pre)
        \<or> res = Inl OutOfFuel \<and> Some st \<notin> set replies \<and> length replies = fuel"
    by blast
  from waitLoop_spec [OF w] obtain new where n: "trace s' = trace s @ new"
    "res = Inr () \<longrightarrow> (\<exists>xs. observed new = xs @ [st] \<and> st \<notin> set xs)"
    "res = Inl OutOfFuel \<longrightarrow> st \<notin> set (observed new) \<and> length (filter isPoll new) = fuel"
    "changes new = tl (remdups_adj ([] # observed new))"
    "length (filter isFailureLog new) = length (filter isFailedPoll new)"
    by blast
  from n(1) have e: "emitted s s' = new" by (rule emitted_append)
  from x(1) have e': "emitted s s' = specWaiterEvents b st [] replies" by (rule emitted_append)
  show ?thesis
    by (rule exI [of _ replies]) (use x n e e' in simp)
qed

lemma run_stoppingThenTerminated:
  "waitForStatus scripted ''build1-api'' ''TERMINATED'' 5 stoppingThenTerminated =
   (Inr (),
    \<lparr>world = [], clock = 6,
     trace =
       [InstancesGet ''build1-api'' (Some ''STOPPING''),
        Log (StatusChanged ''build1-api'' ''STOPPING''),
        Slept 3,
        InstancesGet ''build1-api'' None,
        Log (GetInstanceFailedFor ''build1-api''),
        InstancesGet ''build1-api'' (Some ''STOPPING''),
        Slept 3,
        InstancesGet ''build1-api'' (Some ''TERMINATED''),
        Log (StatusChanged ''build1-api'' ''TERMINATED''),
        Log (StatusReached ''build1-api'' ''TERMINATED'')]\<rparr>)"
  by (simp add: waitForStatus_def scripted_def stoppingThenTerminated_def startState_def
      emit_def sleepFor_def Let_def eval_nat_numeral)


lemma emitted_stoppingThenTerminated:
  "emitted stoppingThenTerminated
     \<lparr>world = [], clock = 6,
      trace =
        [InstancesGet ''build1-api'' (Some ''STOPPING''),
         Log (StatusChanged ''build1-api'' ''STOPPING''),
         Slept 3,
         InstancesGet ''build1-api'' None,
         Log (GetInstanceFailedFor ''build1-api''),
         InstancesGet ''build1-api'' (Some ''STOPPING''),
         Slept 3,
         InstancesGet ''build1-api'' (Some ''TERMINATED''),
         Log (StatusChanged ''build1-api'' ''TERMINATED''),
         Log (StatusReached ''build1-api'' ''TERMINATED'')]\<rparr>
   = [InstancesGet ''build1-api'' (Some ''STOPPING''),
         Log (StatusChanged ''build1-api'' ''STOPPING''),
         Slept 3,
         InstancesGet ''build1-api'' None,
         Log (GetInstanceFailedFor ''build1-api''),
         InstancesGet ''build1-api'' (Some ''STOPPING''),
         Slept 3,
         InstancesGet ''build1-api'' (Some ''TERMINATED''),
         Log (StatusChanged ''build1-api'' ''TERMINATED''),
         Log (StatusReached ''build1-api'' ''TERMINATED'')]"
  by (simp add: emitted_def stoppingThenTerminated_def startState_def)

theorem waitForStatus_polls_until_target_witness:
  "waitForStatus scripted ''build1-api'' ''TERMINATED'' 5 stoppingThenTerminated =
   (Inr (),
    \<lparr>world = [], clock = 6,
     trace =
       [InstancesGet ''build1-api'' (Some ''STOPPING''),
        Log (StatusChanged ''build1-api'' ''STOPPING''),
        Slept 3,
        InstancesGet ''build1-api'' None,
        Log (GetInstanceFailedFor ''build1-api''),
        InstancesGet ''build1-api'' (Some ''STOPPING''),
        Slept 3,
        InstancesGet ''build1-api'' (Some ''TERMINATED''),
        Log (StatusChanged ''build1-api'' ''TERMINATED''),
        Log (StatusReached ''build1-api'' ''TERMINATED'')]\<rparr>)
   \<and> (\<exists>replies.
        [InstancesGet ''build1-api'' (Some ''STOPPING''),
         Log (StatusChanged ''build1-api'' ''STOPPING''),
         Slept 3,
         InstancesGet ''build1-api'' None,
         Log (GetInstanceFailedFor ''build1-api''),
         InstancesGet ''build1-api'' (Some ''STOPPING''),
         Slept 3,
         InstancesGet ''build1-api'' (Some ''TERMINATED''),
         Log (StatusChanged ''build1-api'' ''TERMINATED''),
         Log (StatusReached ''build1-api'' ''TERMINATED'')]
        = specWaiterEvents ''build1-api'' ''TERMINATED'' [] replies
        \<and> (\<exists>pre. replies = pre @ [Some ''TERMINATED''] \<and> Some ''TERMINATED'' \<notin> set pre))
   \<and> replay scripted
        [InstancesGet ''build1-api'' (Some ''STOPPING''),
         Log (StatusChanged ''build1-api'' ''STOPPING''),
         Slept 3,
         InstancesGet ''build1-api'' None,
         Log (GetInstanceFailedFor ''build1-api''),
         InstancesGet ''build1-api'' (Some ''STOPPING''),
         Slept 3,
         InstancesGet ''build1-api'' (Some ''TERMINATED''),
         Log (StatusChanged ''build1-api'' ''TERMINATED''),
         Log (StatusReached ''build1-api'' ''TERMINATED'')]
        [Some ''STOPPING'', None, Some ''STOPPING'', Some ''TERMINATED''] = Some []
   \<and> (\<exists>xs. [''STOPPING'', ''STOPPING'', ''TERMINATED''] = xs @ [''TERMINATED'']
            \<and> ''TERMINATED'' \<notin> set xs)
   \<and> [''STOPPING'', ''TERMINATED'']
       = tl (remdups_adj ([] # [''STOPPING'', ''STOPPING'', ''TERMINATED'']))"
proof -
  let ?new = "[InstancesGet ''build1-api'' (Some ''STOPPING''),
         Log (StatusChanged ''build1-api'' ''STOPPING''),
         Slept 3,
         InstancesGet ''build1-api'' None,
         Log (GetInstanceFailedFor ''build1-api''),
         InstancesGet ''build1-api'' (Some ''STOPPING''),
         Slept 3,
         InstancesGet ''build1-api'' (Some ''TERMINATED''),
         Log (StatusChanged ''build1-api'' ''TERMINATED''),
         Log (StatusReached ''build1-api'' ''TERMINATED'')]"
  let ?s' = "\<lparr>world = [], clock = 6, trace = ?new\<rparr> :: string option list state"
  note em = emitted_stoppingThenTerminated
  have o: "observed ?new = [''STOPPING'', ''STOPPING'', ''TERMINATED'']" by simp
  have c: "changes ?new = [''STOPPING'', ''TERMINATED'']" by simp
  from waitForStatus_polls_until_target [OF run_stoppingThenTerminated, unfolded em] obtain replies where
    t1: "?new = specWaiterEvents ''build1-api'' ''TERMINATED'' [] replies"
    and t2: "replay scripted ?new (world stoppingThenTerminated) = Some (world ?s')"
    and t3: "(Inr () :: failure + unit) = Inr ()
          \<and> (\<exists>pre. replies = pre @ [Some ''TERMINATED''] \<and> Some ''TERMINATED'' \<notin> set pre)
        \<or> (Inr () :: failure + unit) = Inl OutOfFuel
          \<and> Some ''TERMINATED'' \<notin> set replies \<and> length replies = 5"
    and t4: "(Inr () :: failure + unit) = Inr ()
        \<longrightarrow> (\<exists>xs. observed ?new = xs @ [''TERMINATED''] \<and> ''TERMINATED'' \<notin> set xs)"
    and t5: "changes ?new = tl (remdups_adj ([] # observed ?new))"
    by blast
  from t3 have t3': "\<exists>pre. replies = pre @ [Some ''TERMINATED''] \<and> Some ''TERMINATED'' \<notin> set pre"
    by simp
  from t4 have t4': "\<exists>xs. observed ?new = xs @ [''TERMINATED''] \<and> ''TERMINATED'' \<notin> set xs"
    by simp
  note t = t1 t2 t3' t4' t5
  from t(1,3) have a: "\<exists>replies. ?new = specWaiterEvents ''build1-api'' ''TERMINATED'' [] replies
        \<and> (\<exists>pre. replies = pre @ [Some ''TERMINATED''] \<and> Some ''TERMINATED'' \<notin> set pre)"
    by blast
  from t(2) have r: "replay scripted ?new
      [Some ''STOPPING'', None, Some ''STOPPING'', Some ''TERMINATED''] = Some []"
    by (simp add: stoppingThenTerminated_def startState_def)
  from t(4) have x: "\<exists>xs. [''STOPPING'', ''STOPPING'', ''TERMINATED''] = xs @ [''TERMINATED'']
      \<and> ''TERMINATED'' \<notin> set xs"
    by (simp only: o)
  from t(5) have b: "[''STOPPING'', ''TERMINATED'']
       = tl (remdups_adj ([] # [''STOPPING'', ''STOPPING'', ''TERMINATED'']))"
    by (simp only: o c)
  show ?thesis
    by (rule conjI [OF run_stoppingThenTerminated conjI [OF a conjI [OF r conjI [OF x b]]]])
qed


section \<open>Scale-up starts as many boxes as are needed and offline\<close>

lemma neededLogs_simps [simp]:
  "neededLogs [] = []"
  "neededLogs (Log (MoreBoxesNeeded m) # es) = m # neededLogs es"
  "neededLogs (NodeInfoGet b r # es) = neededLogs es"
  "neededLogs (Log (NodeInfoUndecodable b) # es) = neededLogs es"
  "neededLogs (xs @ ys) = neededLogs xs @ neededLogs ys"
  by (simp_all add: neededLogs_def List.map_filter_def)

lemma readsOf_simps [simp]:
  "readsOf [] = []"
  "readsOf (NodeInfoGet b r # es) = (b, r) # readsOf es"
  "readsOf (Log m # es) = readsOf es"
  "readsOf (xs @ ys) = readsOf xs @ readsOf ys"
  by (simp_all add: readsOf_def List.map_filter_def)














section \<open>Bring-online and the maintenance flag\<close>

lemma plain_simps [simp]:
  "plain (Log m)" "plain (NodeInfoGet b r)" "plain (LaunchSlaveAgentPost b)"
  "plain (InstancesGet b g)" "plain (Slept n)" "plain (InstancesStop b ok)"
  "\<not> plain (ToggleNodeStatus b lbl ok)" "\<not> plain (InstancesStart b ok)"
  by (simp_all add: plain_def)

lemma plain_infoEvents [simp]: "\<forall>e\<in>set (infoEvents b r). plain e"
  by (simp add: infoEvents_def)

lemma plain_runningEvents [simp]: "\<forall>e\<in>set (runningEvents b g). plain e"
  by (simp add: runningEvents_def)

lemma isStart_isCommand: "isStart e \<Longrightarrow> isCommand e"
  by (cases e) simp_all

lemma quiet_plain: "\<forall>e\<in>set W. \<not> isCommand e \<Longrightarrow> \<forall>e\<in>set W. plain e"
  using isStart_isCommand isToggle_isCommand by (auto simp: plain_def)

lemma launchSlaveAgent_faithful:
  "launchSlaveAgent E b s = (res, s') \<Longrightarrow> faithful E s s'"
  unfolding faithful_def
  by (rule exI [of _ "[LaunchSlaveAgentPost b]"]) (auto simp: launchSlaveAgent_def emit_def)

lemma launchLoop_run:
  "launchLoop E b dl s = (res, s') \<Longrightarrow>
   faithful E s s'
   \<and> (\<exists>L. trace s' = trace s @ L \<and> (\<forall>e\<in>set L. plain e)
        \<and> (res = Inr () \<or> res = Inl GoroutinePanic)
        \<and> (res = Inr () \<longrightarrow> (\<exists>L' x. L = L' @ [x] \<and> agentVerdict b x)))"
proof (induction E b dl s arbitrary: res s' rule: launchLoop.induct)
  case (1 E b dl s)
  show ?case
  proof (cases "dl \<le> clock s")
    case True
    with "1.prems" have r: "res = Inr ()" "s' = emit (Log (DidNotComeOnline b)) s"
      by (simp_all add: say_def)
    have f: "faithful E s s'" using r by (simp add: faithful_log)
    have "trace s' = trace s @ [Log (DidNotComeOnline b)]" using r by (simp add: emit_def)
    moreover have "\<exists>L' x. [Log (DidNotComeOnline b)] = L' @ [x] \<and> agentVerdict b x"
      by (intro exI [of _ "[]"] exI [of _ "Log (DidNotComeOnline b)"]) (simp add: agentVerdict_def)
    ultimately have "\<exists>L. trace s' = trace s @ L \<and> (\<forall>e\<in>set L. plain e)
        \<and> (res = Inr () \<or> res = Inl GoroutinePanic)
        \<and> (res = Inr () \<longrightarrow> (\<exists>L' x. L = L' @ [x] \<and> agentVerdict b x))"
      using r(1) by (intro exI [of _ "[Log (DidNotComeOnline b)]"]) simp
    with f show ?thesis by blast
  next
    case False
    obtain ra s1 where a: "isAgentConnected E b s = (ra, s1)"
      by (cases "isAgentConnected E b s")
    from a have fa: "faithful E s s1"
      unfolding isAgentConnected_def by (rule fetch_field_faithful)
    from fetch_field [OF a [unfolded isAgentConnected_def]] obtain r where
      t1: "trace s1 = trace s @ infoEvents b r"
      and v: "(r = DoFailed \<and> ra = Inl Panic)
           \<or> (r = Undecodable \<and> ra = Inr (ArchitectureMonitor zeroInfo \<noteq> None))
           \<or> (\<exists>d. r = Decoded d \<and> ra = Inr (ArchitectureMonitor d \<noteq> None))"
      by blast
    show ?thesis
    proof (cases ra)
      case (Inl e)
      with "1.prems" False a have r: "res = Inl GoroutinePanic" "s' = s1" by simp_all
      have "\<exists>L. trace s' = trace s @ L \<and> (\<forall>e\<in>set L. plain e)
        \<and> (res = Inr () \<or> res = Inl GoroutinePanic)
        \<and> (res = Inr () \<longrightarrow> (\<exists>L' x. L = L' @ [x] \<and> agentVerdict b x))"
        using r t1 by (intro exI [of _ "infoEvents b r"]) simp
      with fa r show ?thesis by blast
    next
      case (Inr up)
      show ?thesis
      proof (cases up)
        case True
        with "1.prems" False a Inr have r: "res = Inr ()" "s' = s1" by simp_all
        from v Inr True obtain d where d: "r = Decoded d" "ArchitectureMonitor d \<noteq> None"
          by (auto simp: zeroInfo_def)
        have "\<exists>L' x. infoEvents b r = L' @ [x] \<and> agentVerdict b x"
          using d by (intro exI [of _ "[]"] exI [of _ "NodeInfoGet b (Decoded d)"])
            (simp add: agentVerdict_def infoEvents_def)
        then have "\<exists>L. trace s' = trace s @ L \<and> (\<forall>e\<in>set L. plain e)
          \<and> (res = Inr () \<or> res = Inl GoroutinePanic)
          \<and> (res = Inr () \<longrightarrow> (\<exists>L' x. L = L' @ [x] \<and> agentVerdict b x))"
          using r t1 by (intro exI [of _ "infoEvents b r"]) simp
        with fa r show ?thesis by blast
      next
        case nup: False
        let ?s2 = "snd (launchSlaveAgent E b s1)"
        let ?s3 = "snd (sleepFor E 10 ?s2)"
        from "1.prems" False a Inr nup have rec: "launchLoop E b dl ?s3 = (res, s')" by simp
        from "1.IH" [OF False a [symmetric] Inr nup rec]
        have ih: "faithful E ?s3 s'
          \<and> (\<exists>L. trace s' = trace ?s3 @ L \<and> (\<forall>e\<in>set L. plain e)
            \<and> (res = Inr () \<or> res = Inl GoroutinePanic)
            \<and> (res = Inr () \<longrightarrow> (\<exists>L' x. L = L' @ [x] \<and> agentVerdict b x)))"
          by simp
        then obtain L where l: "trace s' = trace ?s3 @ L" "\<forall>e\<in>set L. plain e"
            "res = Inr () \<or> res = Inl GoroutinePanic"
            "res = Inr () \<longrightarrow> (\<exists>L' x. L = L' @ [x] \<and> agentVerdict b x)"
          by blast
        have f2: "faithful E s1 ?s2"
          by (rule launchSlaveAgent_faithful [of E b s1 "fst (launchSlaveAgent E b s1)"]) simp
        have f3: "faithful E ?s2 ?s3"
          by (rule sleepFor_faithful [of E 10 ?s2 "fst (sleepFor E 10 ?s2)"]) simp
        have f: "faithful E s s'"
          using fa f2 f3 ih by (blast intro: faithful_trans)
        have t3: "trace ?s3 = trace s @ infoEvents b r @ [LaunchSlaveAgentPost b, Slept 10]"
          using t1 by (simp add: launchSlaveAgent_def sleepFor_def emit_def)
        let ?L = "infoEvents b r @ [LaunchSlaveAgentPost b, Slept 10] @ L"
        have v4: "res = Inr () \<longrightarrow> (\<exists>L' x. ?L = L' @ [x] \<and> agentVerdict b x)"
        proof
          assume "res = Inr ()"
          with l(4) obtain L' x where "L = L' @ [x]" "agentVerdict b x" by blast
          then have "?L = (infoEvents b r @ [LaunchSlaveAgentPost b, Slept 10] @ L') @ [x]
              \<and> agentVerdict b x" by simp
          then show "\<exists>L' x. ?L = L' @ [x] \<and> agentVerdict b x" by blast
        qed
        have "\<exists>L. trace s' = trace s @ L \<and> (\<forall>e\<in>set L. plain e)
          \<and> (res = Inr () \<or> res = Inl GoroutinePanic)
          \<and> (res = Inr () \<longrightarrow> (\<exists>L' x. L = L' @ [x] \<and> agentVerdict b x))"
          by (rule exI [of _ ?L]) (use l(1,2,3) t3 v4 in \<open>simp add: ball_Un\<close>)
        with f show ?thesis by blast
      qed
    qed
  qed
qed


lemma startStep_plain: "\<forall>e\<in>set S. plain e \<Longrightarrow> startStep b S A"
  by (simp add: startStep_def)

lemma onlineStep_failed: "res \<noteq> Inr () \<Longrightarrow> \<forall>e\<in>set F. plain e \<Longrightarrow> onlineStep b res A F"
  by (simp add: onlineStep_def)

lemma startBuildBox_run:
  assumes "startBuildBox E fuel b s = (res, s')"
  shows "faithful E s s'
    \<and> (\<exists>g. (res = Inr () \<and> trace s' = trace s @ runningEvents b g)
          \<or> (res = Inr () \<and> trace s' = trace s @ runningEvents b g
                @ [InstancesStart b False, Log StartRequestFailed])
          \<or> (\<exists>W. trace s' = trace s @ runningEvents b g @ InstancesStart b True # W
                \<and> (\<forall>e\<in>set W. plain e)))"
  using assms unfolding startBuildBox_def
proof (cases rule: andThen_cases)
  case (failed e)
  from isBuildBoxRunning_run [OF failed(1)] show ?thesis by simp
next
  case (went running s1)
  from isBuildBoxRunning_run [OF went(1)] obtain g where
    g: "running = (g = Some ''RUNNING'')" "trace s1 = trace s @ runningEvents b g" by auto
  from went(1) have f1: "faithful E s s1" by (rule isBuildBoxRunning_faithful)
  show ?thesis
  proof (cases running)
    case True
    with went(2) have "res = Inr ()" "s' = s1" by (simp_all add: ret_def)
    with f1 g(2) show ?thesis by blast
  next
    case False
    obtain ok w where st: "instancesStart E b (world s1) = (ok, w)"
      by (cases "instancesStart E b (world s1)")
    let ?s2 = "emit (InstancesStart b ok) (s1\<lparr>world := w\<rparr>)"
    have f2: "faithful E s1 ?s2"
      unfolding faithful_def
      by (rule exI [of _ "[InstancesStart b ok]"]) (use st in \<open>simp add: emit_def\<close>)
    have t2: "trace ?s2 = trace s @ runningEvents b g @ [InstancesStart b ok]"
      using g(2) by (simp add: emit_def)
    show ?thesis
    proof (cases ok)
      case nok: False
      with went(2) False st have r: "say StartRequestFailed ?s2 = (res, s')" by simp
      then have "res = Inr ()" "trace s' = trace ?s2 @ [Log StartRequestFailed]"
        by (auto simp: say_def emit_def)
      with t2 nok have "res = Inr () \<and> trace s' = trace s @ runningEvents b g
                @ [InstancesStart b False, Log StartRequestFailed]" by simp
      moreover from r have "faithful E ?s2 s'" by (rule say_faithful)
      with f1 f2 have "faithful E s s'" by (blast intro: faithful_trans)
      ultimately show ?thesis by blast
    next
      case yok: True
      with went(2) False st have r:
        "andThen (waitForStatus E b ''RUNNING'' fuel) (\<lambda>_. sleepFor E 20) ?s2 = (res, s')"
        by simp
      then have f3: "faithful E ?s2 s'"
        by (rule faithful_andThen) (auto intro: waitForStatus_faithful sleepFor_faithful)
      with f1 f2 have f: "faithful E s s'" by (blast intro: faithful_trans)
      from r have "\<exists>W. trace s' = trace ?s2 @ W \<and> (\<forall>e\<in>set W. plain e)"
      proof (cases rule: andThen_cases)
        case (failed e)
        then have "waitLoop E b ''RUNNING'' [] fuel ?s2 = (Inl e, s')"
          by (simp add: waitForStatus_def)
        from waitLoop_trace [OF this] show ?thesis using quiet_plain by blast
      next
        case (went x s3)
        then have "waitLoop E b ''RUNNING'' [] fuel ?s2 = (Inr x, s3)"
          by (simp add: waitForStatus_def)
        from waitLoop_trace [OF this] obtain W where
          w: "trace s3 = trace ?s2 @ W" "\<forall>e\<in>set W. \<not> isCommand e" by blast
        from w(2) have "\<forall>e\<in>set W. plain e" by (rule quiet_plain)
        with w(1) went(2) show ?thesis
          by (intro exI [of _ "W @ [Slept 20]"]) (auto simp: sleepFor_def emit_def)
      qed
      then obtain W where "trace s' = trace ?s2 @ W" "\<forall>e\<in>set W. plain e" by blast
      with t2 yok have "\<exists>W. trace s' = trace s @ runningEvents b g @ InstancesStart b True # W
                \<and> (\<forall>e\<in>set W. plain e)" by simp
      with f show ?thesis by blast
    qed
  qed
qed

lemma agent_step_run:
  assumes "(if \<not> up then launchNodeAgent E b else ret ()) s = (res, s')"
  shows "faithful E s s'
    \<and> (\<exists>L. trace s' = trace s @ L \<and> (\<forall>e\<in>set L. plain e)
         \<and> (res = Inr () \<or> res = Inl GoroutinePanic)
         \<and> (res = Inr () \<longrightarrow> up \<and> L = [] \<or> (\<exists>L' x. L = L' @ [x] \<and> agentVerdict b x)))"
proof (cases up)
  case True
  with assms have "res = Inr ()" "s' = s" by (simp_all add: ret_def)
  with True show ?thesis by (simp add: faithful_refl)
next
  case False
  let ?s1 = "emit (Log (AgentRelaunched b)) s"
  from False assms have r: "launchLoop E b (clock ?s1 + 120) ?s1 = (res, s')"
    by (simp add: launchNodeAgent_def andThen_def say_def)
  from launchLoop_run [OF r] obtain L where l: "faithful E ?s1 s'"
    "trace s' = trace ?s1 @ L" "\<forall>e\<in>set L. plain e"
    "res = Inr () \<or> res = Inl GoroutinePanic"
    "res = Inr () \<longrightarrow> (\<exists>L' x. L = L' @ [x] \<and> agentVerdict b x)"
    by blast
  have f: "faithful E s s'" using faithful_log [of E s "AgentRelaunched b"] l(1)
    by (rule faithful_trans)
  have v: "res = Inr () \<longrightarrow> (\<exists>L' x. Log (AgentRelaunched b) # L = L' @ [x] \<and> agentVerdict b x)"
  proof
    assume "res = Inr ()"
    with l(5) obtain L' x where "L = L' @ [x]" "agentVerdict b x" by blast
    then have "Log (AgentRelaunched b) # L = (Log (AgentRelaunched b) # L') @ [x]
        \<and> agentVerdict b x" by simp
    then show "\<exists>L' x. Log (AgentRelaunched b) # L = L' @ [x] \<and> agentVerdict b x" by blast
  qed
  have "\<exists>L. trace s' = trace s @ L \<and> (\<forall>e\<in>set L. plain e)
         \<and> (res = Inr () \<or> res = Inl GoroutinePanic)
         \<and> (res = Inr () \<longrightarrow> up \<and> L = [] \<or> (\<exists>L' x. L = L' @ [x] \<and> agentVerdict b x))"
    by (rule exI [of _ "Log (AgentRelaunched b) # L"]) (use l(2,3,4) v in \<open>simp add: emit_def\<close>)
  with f show ?thesis by blast
qed

lemma toggle_step_run:
  assumes "(if t then andThen (toggleNodeStatus E b lbl) (\<lambda>_. ret ()) else ret ()) s = (res, s')"
  shows "faithful E s s' \<and> res = Inr ()
    \<and> (\<not> t \<and> trace s' = trace s \<or> t \<and> (\<exists>ok. trace s' = trace s @ toggleEvents b lbl ok))"
proof (cases t)
  case False
  with assms show ?thesis by (auto simp: ret_def faithful_refl)
next
  case True
  with assms have a: "andThen (toggleNodeStatus E b lbl) (\<lambda>_. ret ()) s = (res, s')" by simp
  then have f: "faithful E s s'"
    by (rule faithful_andThen) (auto intro: toggleNodeStatus_faithful ret_faithful)
  from a show ?thesis
  proof (cases rule: andThen_cases)
    case (failed e)
    from toggleNodeStatus_run [OF failed(1)] show ?thesis by simp
  next
    case (went x s1)
    from toggleNodeStatus_run [OF went(1)] obtain ok where
      "trace s1 = trace s @ toggleEvents b lbl ok" by auto
    with went(2) True f show ?thesis by (auto simp: ret_def)
  qed
qed

lemma toggleEvents_offline_quiet [simp]:
  "\<forall>e\<in>set (toggleEvents b ''offline'' ok). \<not> isStart e \<and> \<not> isOnlineToggle e"
  by (simp add: toggleEvents_def)

lemma plain_quiet: "plain e \<Longrightarrow> \<not> isStart e \<and> \<not> isOnlineToggle e"
  by (cases e) (simp_all add: plain_def)

lemma startBuildBoxAsync_run:
  assumes "startBuildBoxAsync E fuel b s = (res, s')"
  shows "faithful E s s'
    \<and> (\<exists>H S A F. trace s' = trace s @ H @ S @ A @ F
         \<and> (\<forall>e\<in>set H. \<not> isStart e \<and> \<not> isOnlineToggle e)
         \<and> (\<forall>e\<in>set A. plain e)
         \<and> startStep b S A \<and> onlineStep b res A F)"
proof -
  let ?s0 = "emit (Log (IsOfflineTryingOnline b)) s"
  have f0: "faithful E s ?s0" by (rule faithful_log)
  have t0: "trace ?s0 = trace s @ [Log (IsOfflineTryingOnline b)]" by (simp add: emit_def)
  from assms have "andThen (isNodeTemporarilyOffline E b) (\<lambda>tempOffline.
     andThen (if \<not> tempOffline
              then andThen (toggleNodeStatus E b ''offline'') (\<lambda>_. ret ())
              else ret ()) (\<lambda>_.
     andThen (startBuildBox E fuel b) (\<lambda>_.
     andThen (isAgentConnected E b) (\<lambda>agentUp.
     andThen (if \<not> agentUp then launchNodeAgent E b else ret ()) (\<lambda>_.
     andThen (isNodeTemporarilyOffline E b) (\<lambda>stillTempOffline.
     if stillTempOffline
     then andThen (toggleNodeStatus E b ''online'') (\<lambda>_. ret ())
     else ret ())))))) ?s0 = (res, s')"
    by (simp add: startBuildBoxAsync_def andThen_def say_def)
  then show ?thesis
  proof (cases rule: andThen_cases)
    case (failed e)
    from failed(1) have f: "faithful E ?s0 s'"
      unfolding isNodeTemporarilyOffline_def by (rule fetch_field_faithful)
    from fetch_field [OF failed(1) [unfolded isNodeTemporarilyOffline_def]] obtain r0 where
      "trace s' = trace ?s0 @ infoEvents b r0" by auto
    with t0 have t: "trace s' = trace s @ (Log (IsOfflineTryingOnline b) # infoEvents b r0)
        @ [] @ [] @ []" by simp
    have "\<exists>H S A F. trace s' = trace s @ H @ S @ A @ F
         \<and> (\<forall>e\<in>set H. \<not> isStart e \<and> \<not> isOnlineToggle e)
         \<and> (\<forall>e\<in>set A. plain e)
         \<and> startStep b S A \<and> onlineStep b res A F"
      by (rule exI [of _ "Log (IsOfflineTryingOnline b) # infoEvents b r0"],
          rule exI [of _ "[]"], rule exI [of _ "[]"], rule exI [of _ "[]"])
         (use t failed(2) in \<open>simp add: startStep_plain onlineStep_failed infoEvents_def\<close>)
    with f0 f show ?thesis by (blast intro: faithful_trans)
  next
    case (went t1 s1)
    from went(1) have f1: "faithful E ?s0 s1"
      unfolding isNodeTemporarilyOffline_def by (rule fetch_field_faithful)
    from fetch_field [OF went(1) [unfolded isNodeTemporarilyOffline_def]] obtain r0 where
      t1: "trace s1 = trace ?s0 @ infoEvents b r0" by auto
    from went(2) show ?thesis
    proof (cases rule: andThen_cases)
      case (failed e)
      from toggle_step_run [OF failed(1)] show ?thesis by simp
    next
      case (went u s2)
      from toggle_step_run [OF went(1)] have f2: "faithful E s1 s2"
        and m: "t1 \<and> trace s2 = trace s1
              \<or> \<not> t1 \<and> (\<exists>ok. trace s2 = trace s1 @ toggleEvents b ''offline'' ok)"
        by auto
      from m obtain M where m': "trace s2 = trace s1 @ M"
        "\<forall>e\<in>set M. \<not> isStart e \<and> \<not> isOnlineToggle e"
        by (auto simp: toggleEvents_def)
      let ?H = "Log (IsOfflineTryingOnline b) # infoEvents b r0 @ M"
      have h: "trace s2 = trace s @ ?H" using t0 t1 m'(1) by simp
      have hq: "\<forall>e\<in>set ?H. \<not> isStart e \<and> \<not> isOnlineToggle e"
        using m'(2) by (simp add: ball_Un infoEvents_def)
      have f02: "faithful E s s2" using f0 f1 f2 by (blast intro: faithful_trans)
      from went(2) show ?thesis
      proof (cases rule: andThen_cases)
        case (failed e)
        from startBuildBox_run [OF failed(1)] obtain g W where
          f3: "faithful E s2 s'"
          and w: "trace s' = trace s2 @ runningEvents b g @ InstancesStart b True # W"
            "\<forall>e\<in>set W. plain e"
          by auto
        have ss: "startStep b (runningEvents b g @ InstancesStart b True # W) []"
          unfolding startStep_def using w(2) by blast
        have "\<exists>H S A F. trace s' = trace s @ H @ S @ A @ F
             \<and> (\<forall>e\<in>set H. \<not> isStart e \<and> \<not> isOnlineToggle e)
             \<and> (\<forall>e\<in>set A. plain e)
             \<and> startStep b S A \<and> onlineStep b res A F"
          by (rule exI [of _ ?H],
              rule exI [of _ "runningEvents b g @ InstancesStart b True # W"],
              rule exI [of _ "[]"], rule exI [of _ "[]"])
             (use h hq w(1) ss failed(2) in \<open>simp add: onlineStep_failed\<close>)
        with f02 f3 show ?thesis by (blast intro: faithful_trans)
      next
        case (went u3 s3)
        from startBuildBox_run [OF went(1)] obtain g where f3: "faithful E s2 s3"
          and sb: "trace s3 = trace s2 @ runningEvents b g
               \<or> trace s3 = trace s2 @ runningEvents b g
                    @ [InstancesStart b False, Log StartRequestFailed]
               \<or> (\<exists>W. trace s3 = trace s2 @ runningEvents b g @ InstancesStart b True # W
                    \<and> (\<forall>e\<in>set W. plain e))"
          by auto
        from sb obtain S where s: "trace s3 = trace s2 @ S"
          "\<And>r A'. startStep b S (NodeInfoGet b r # A')"
        proof (elim disjE exE conjE)
          assume a: "trace s3 = trace s2 @ runningEvents b g"
          have "\<And>r A'. startStep b (runningEvents b g) (NodeInfoGet b r # A')"
            by (simp add: startStep_plain)
          with a show ?thesis using that by blast
        next
          assume a: "trace s3 = trace s2 @ runningEvents b g
                    @ [InstancesStart b False, Log StartRequestFailed]"
          have "\<And>r A'. startStep b (runningEvents b g
                    @ [InstancesStart b False, Log StartRequestFailed]) (NodeInfoGet b r # A')"
            unfolding startStep_def by blast
          with a show ?thesis using that by blast
        next
          fix W assume a: "trace s3 = trace s2 @ runningEvents b g @ InstancesStart b True # W"
            "\<forall>e\<in>set W. plain e"
          have "\<And>r A'. startStep b (runningEvents b g @ InstancesStart b True # W)
              (NodeInfoGet b r # A')"
            unfolding startStep_def using a(2) by blast
          with a(1) show ?thesis using that by blast
        qed
        have f03: "faithful E s s3" using f02 f3 by (rule faithful_trans)
        from went(2) show ?thesis
        proof (cases rule: andThen_cases)
          case (failed e)
          from failed(1) have f4: "faithful E s3 s'"
            unfolding isAgentConnected_def by (rule fetch_field_faithful)
          from fetch_field [OF failed(1) [unfolded isAgentConnected_def]] obtain ra where
            "trace s' = trace s3 @ infoEvents b ra" by auto
          then have t: "trace s' = trace s @ ?H @ S @ (NodeInfoGet b ra
              # (if ra = Undecodable then [Log (NodeInfoUndecodable b)] else [])) @ []"
            using h s(1) by (simp add: infoEvents_def)
          have "\<exists>H S A F. trace s' = trace s @ H @ S @ A @ F
             \<and> (\<forall>e\<in>set H. \<not> isStart e \<and> \<not> isOnlineToggle e)
             \<and> (\<forall>e\<in>set A. plain e)
             \<and> startStep b S A \<and> onlineStep b res A F"
            by (rule exI [of _ ?H], rule exI [of _ S],
                rule exI [of _ "NodeInfoGet b ra
                  # (if ra = Undecodable then [Log (NodeInfoUndecodable b)] else [])"],
                rule exI [of _ "[]"])
               (use t hq s(2) failed(2) in \<open>simp add: onlineStep_failed\<close>)
          with f03 f4 show ?thesis by (blast intro: faithful_trans)
        next
          case (went up s4)
          from went(1) have f4: "faithful E s3 s4"
            unfolding isAgentConnected_def by (rule fetch_field_faithful)
          from fetch_field [OF went(1) [unfolded isAgentConnected_def]] obtain ra where
            t4: "trace s4 = trace s3 @ infoEvents b ra"
            and va: "(ra = Undecodable \<and> up = (ArchitectureMonitor zeroInfo \<noteq> None))
               \<or> (\<exists>d. ra = Decoded d \<and> up = (ArchitectureMonitor d \<noteq> None))"
            by auto
          have f04: "faithful E s s4" using f03 f4 by (rule faithful_trans)
          from went(2) show ?thesis
          proof (cases rule: andThen_cases)
            case (failed e)
            from agent_step_run [OF failed(1)] obtain L where f5: "faithful E s4 s'"
              and l: "trace s' = trace s4 @ L" "\<forall>e\<in>set L. plain e" by auto
            let ?A = "NodeInfoGet b ra
                  # (if ra = Undecodable then [Log (NodeInfoUndecodable b)] else []) @ L"
            have t: "trace s' = trace s @ ?H @ S @ ?A @ []"
              using h s(1) t4 l(1) by (simp add: infoEvents_def)
            have "\<exists>H S A F. trace s' = trace s @ H @ S @ A @ F
               \<and> (\<forall>e\<in>set H. \<not> isStart e \<and> \<not> isOnlineToggle e)
               \<and> (\<forall>e\<in>set A. plain e)
               \<and> startStep b S A \<and> onlineStep b res A F"
              by (rule exI [of _ ?H], rule exI [of _ S], rule exI [of _ ?A], rule exI [of _ "[]"])
                 (use t hq s(2) l(2) failed(2) in \<open>simp add: onlineStep_failed ball_Un\<close>)
            with f04 f5 show ?thesis by (blast intro: faithful_trans)
          next
            case (went u5 s5)
            from agent_step_run [OF went(1)] obtain L where f5: "faithful E s4 s5"
              and l: "trace s5 = trace s4 @ L" "\<forall>e\<in>set L. plain e"
                "up \<and> L = [] \<or> (\<exists>L' x. L = L' @ [x] \<and> agentVerdict b x)" by auto
            let ?A = "NodeInfoGet b ra
                  # (if ra = Undecodable then [Log (NodeInfoUndecodable b)] else []) @ L"
            have a5: "trace s5 = trace s @ ?H @ S @ ?A"
              using h s(1) t4 l(1) by (simp add: infoEvents_def)
            have ap: "\<forall>e\<in>set ?A. plain e" using l(2) by (simp add: ball_Un)
            have av: "\<exists>A' x. ?A = A' @ [x] \<and> agentVerdict b x"
              using l(3)
            proof
              assume "up \<and> L = []"
              with va obtain d where "ra = Decoded d" "ArchitectureMonitor d \<noteq> None" "L = []"
                by (auto simp: zeroInfo_def)
              then have "?A = [] @ [NodeInfoGet b (Decoded d)]
                  \<and> agentVerdict b (NodeInfoGet b (Decoded d))"
                by (simp add: agentVerdict_def)
              then show ?thesis by blast
            next
              assume "\<exists>L' x. L = L' @ [x] \<and> agentVerdict b x"
              then obtain L' x where "L = L' @ [x]" "agentVerdict b x" by blast
              then have "?A = (NodeInfoGet b ra
                  # (if ra = Undecodable then [Log (NodeInfoUndecodable b)] else []) @ L') @ [x]
                  \<and> agentVerdict b x" by simp
              then show ?thesis by blast
            qed
            have f05: "faithful E s s5" using f04 f5 by (rule faithful_trans)
            from went(2) show ?thesis
            proof (cases rule: andThen_cases)
              case (failed e)
              from failed(1) have f6: "faithful E s5 s'"
                unfolding isNodeTemporarilyOffline_def by (rule fetch_field_faithful)
              from fetch_field [OF failed(1) [unfolded isNodeTemporarilyOffline_def]]
              obtain rf where "trace s' = trace s5 @ infoEvents b rf" by auto
              with a5 have t: "trace s' = trace s @ ?H @ S @ ?A @ infoEvents b rf" by simp
              have "\<exists>H S A F. trace s' = trace s @ H @ S @ A @ F
                 \<and> (\<forall>e\<in>set H. \<not> isStart e \<and> \<not> isOnlineToggle e)
                 \<and> (\<forall>e\<in>set A. plain e)
                 \<and> startStep b S A \<and> onlineStep b res A F"
                by (rule exI [of _ ?H], rule exI [of _ S], rule exI [of _ ?A],
                    rule exI [of _ "infoEvents b rf"])
                   (use t hq s(2) ap failed(2) in \<open>simp add: onlineStep_failed\<close>)
              with f05 f6 show ?thesis by (blast intro: faithful_trans)
            next
              case (went t6 s6)
              from went(1) have f6: "faithful E s5 s6"
                unfolding isNodeTemporarilyOffline_def by (rule fetch_field_faithful)
              from fetch_field [OF went(1) [unfolded isNodeTemporarilyOffline_def]]
              obtain rf where t6: "trace s6 = trace s5 @ infoEvents b rf"
                and vf: "(rf = Undecodable \<and> t6 = TemporarilyOffline zeroInfo)
                   \<or> (\<exists>d. rf = Decoded d \<and> t6 = TemporarilyOffline d)"
                by auto
              from toggle_step_run [OF went(2)] have f7: "faithful E s6 s'"
                and r: "res = Inr ()"
                and fin: "\<not> t6 \<and> trace s' = trace s6
                   \<or> t6 \<and> (\<exists>ok. trace s' = trace s6 @ toggleEvents b ''online'' ok)"
                by auto
              from fin vf obtain Fin where fn: "trace s' = trace s6 @ Fin"
                "(\<exists>d. rf = Decoded d \<and> TemporarilyOffline d)
                    \<and> (\<exists>ok. Fin = toggleEvents b ''online'' ok)
                 \<or> (rf = Undecodable \<or> (\<exists>d. rf = Decoded d \<and> \<not> TemporarilyOffline d))
                    \<and> Fin = []"
                by (auto simp: zeroInfo_def)
              from av obtain A' x where ax: "?A = A' @ [x]" "agentVerdict b x" by blast
              have os: "onlineStep b res ?A (infoEvents b rf @ Fin)"
                unfolding onlineStep_def using r ax fn(2) by blast
              have t: "trace s' = trace s @ ?H @ S @ ?A @ infoEvents b rf @ Fin"
                using a5 t6 fn(1) by simp
              have "\<exists>H S A F. trace s' = trace s @ H @ S @ A @ F
                 \<and> (\<forall>e\<in>set H. \<not> isStart e \<and> \<not> isOnlineToggle e)
                 \<and> (\<forall>e\<in>set A. plain e)
                 \<and> startStep b S A \<and> onlineStep b res A F"
                by (rule exI [of _ ?H], rule exI [of _ S], rule exI [of _ ?A],
                    rule exI [of _ "infoEvents b rf @ Fin"])
                   (use t hq s(2) ap os in simp)
              with f05 f6 f7 show ?thesis by (blast intro: faithful_trans)
            qed
          qed
        qed
      qed
    qed
  qed
qed


lemma startStep_no_online:
  assumes "startStep b S A"
  shows "\<forall>e\<in>set S. \<not> isOnlineToggle e"
  using assms plain_quiet unfolding startStep_def
  by (elim disjE exE conjE) (auto simp: runningEvents_def)

lemma onlineStep_no_start:
  assumes "onlineStep b res A F"
  shows "\<forall>e\<in>set F. \<not> isStart e"
  using assms plain_quiet unfolding onlineStep_def
  by (elim disjE exE conjE) (auto simp: infoEvents_def toggleEvents_def)

lemma replicate_12:
  "concat (replicate 12 xs) = xs @ xs @ xs @ xs @ xs @ xs @ xs @ xs @ xs @ xs @ xs @ xs"
  by (simp add: eval_nat_numeral)

lemma run_offlineStartsFail:
  "startBuildBoxAsync sim 3 ''build1-api'' offlineStartsFail =
   (Inr (),
    \<lparr>world = (boxWorld (regInfo True False True None) ''TERMINATED'')
                \<lparr>startsWork := False\<rparr>,
     clock = 120,
     trace =
       [Log (IsOfflineTryingOnline ''build1-api''),
        NodeInfoGet ''build1-api'' (Decoded (regInfo True False True None)),
        ToggleNodeStatus ''build1-api'' ''offline'' True,
        Log (WasToggled ''build1-api'' ''offline''),
        InstancesGet ''build1-api'' (Some ''TERMINATED''),
        InstancesStart ''build1-api'' False,
        Log StartRequestFailed,
        NodeInfoGet ''build1-api'' (Decoded (regInfo True True True None)),
        Log (AgentRelaunched ''build1-api'')]
       @ concat (replicate 12
           [NodeInfoGet ''build1-api'' (Decoded (regInfo True True True None)),
            LaunchSlaveAgentPost ''build1-api'',
            Slept 10])
       @ [Log (DidNotComeOnline ''build1-api''),
          NodeInfoGet ''build1-api'' (Decoded (regInfo True True True None)),
          ToggleNodeStatus ''build1-api'' ''online'' True,
          Log (WasToggled ''build1-api'' ''online'')]\<rparr>)"
  by (simp add: replicate_12 startBuildBoxAsync_def isNodeTemporarilyOffline_def
      isAgentConnected_def launchNodeAgent_def startBuildBox_def launchSlaveAgent_def
      andThen_def fetchNodeInfo_def ret_def emit_def say_def toggleNodeStatus_def
      isBuildBoxRunning_def sleepFor_def sim_def boxWorld_def simWorld0_def
      startState_def regInfo_def offlineStartsFail_def Let_def)


lemma emitted_offlineStartsFail:
  "emitted offlineStartsFail
     \<lparr>world = (boxWorld (regInfo True False True None) ''TERMINATED'')
                \<lparr>startsWork := False\<rparr>,
     clock = 120,
     trace =
       [Log (IsOfflineTryingOnline ''build1-api''),
        NodeInfoGet ''build1-api'' (Decoded (regInfo True False True None)),
        ToggleNodeStatus ''build1-api'' ''offline'' True,
        Log (WasToggled ''build1-api'' ''offline''),
        InstancesGet ''build1-api'' (Some ''TERMINATED''),
        InstancesStart ''build1-api'' False,
        Log StartRequestFailed,
        NodeInfoGet ''build1-api'' (Decoded (regInfo True True True None)),
        Log (AgentRelaunched ''build1-api'')]
       @ concat (replicate 12
           [NodeInfoGet ''build1-api'' (Decoded (regInfo True True True None)),
            LaunchSlaveAgentPost ''build1-api'',
            Slept 10])
       @ [Log (DidNotComeOnline ''build1-api''),
          NodeInfoGet ''build1-api'' (Decoded (regInfo True True True None)),
          ToggleNodeStatus ''build1-api'' ''online'' True,
          Log (WasToggled ''build1-api'' ''online'')]\<rparr>
   = [Log (IsOfflineTryingOnline ''build1-api''),
        NodeInfoGet ''build1-api'' (Decoded (regInfo True False True None)),
        ToggleNodeStatus ''build1-api'' ''offline'' True,
        Log (WasToggled ''build1-api'' ''offline''),
        InstancesGet ''build1-api'' (Some ''TERMINATED''),
        InstancesStart ''build1-api'' False,
        Log StartRequestFailed,
        NodeInfoGet ''build1-api'' (Decoded (regInfo True True True None)),
        Log (AgentRelaunched ''build1-api'')]
       @ concat (replicate 12
           [NodeInfoGet ''build1-api'' (Decoded (regInfo True True True None)),
            LaunchSlaveAgentPost ''build1-api'',
            Slept 10])
       @ [Log (DidNotComeOnline ''build1-api''),
          NodeInfoGet ''build1-api'' (Decoded (regInfo True True True None)),
          ToggleNodeStatus ''build1-api'' ''online'' True,
          Log (WasToggled ''build1-api'' ''online'')]"
  by (simp add: emitted_def offlineStartsFail_def startState_def)

text \<open>
  The claim C2 as the specification states it does not hold of the code. When the start
  request fails, only \<^verbatim>\<open>startBuildBox\<close> returns: \<^verbatim>\<open>startBuildBoxAsync\<close> goes on. With
  a compute plane that refuses the start, for an offline box with a stopped instance:
  the failure is logged, the launcher asks for the agent twelve times in 120 seconds and
  logs that it did not come online, and then the maintenance flag, which the transition
  had set, is cleared. The box is left with \<open>TemporarilyOffline = False\<close>, no agent
  connected and its instance stopped.
\<close>

theorem online_without_agent_counterexample:
  "startBuildBoxAsync sim 3 ''build1-api'' offlineStartsFail =
   (Inr (),
    \<lparr>world = (boxWorld (regInfo True False True None) ''TERMINATED'')
                \<lparr>startsWork := False\<rparr>,
     clock = 120,
     trace =
       [Log (IsOfflineTryingOnline ''build1-api''),
        NodeInfoGet ''build1-api'' (Decoded (regInfo True False True None)),
        ToggleNodeStatus ''build1-api'' ''offline'' True,
        Log (WasToggled ''build1-api'' ''offline''),
        InstancesGet ''build1-api'' (Some ''TERMINATED''),
        InstancesStart ''build1-api'' False,
        Log StartRequestFailed,
        NodeInfoGet ''build1-api'' (Decoded (regInfo True True True None)),
        Log (AgentRelaunched ''build1-api'')]
       @ concat (replicate 12
           [NodeInfoGet ''build1-api'' (Decoded (regInfo True True True None)),
            LaunchSlaveAgentPost ''build1-api'',
            Slept 10])
       @ [Log (DidNotComeOnline ''build1-api''),
          NodeInfoGet ''build1-api'' (Decoded (regInfo True True True None)),
          ToggleNodeStatus ''build1-api'' ''online'' True,
          Log (WasToggled ''build1-api'' ''online'')]\<rparr>)
   \<and> map_of (nodes ((boxWorld (regInfo True False True None) ''TERMINATED'')
                       \<lparr>startsWork := False\<rparr>)) ''build1-api''
       = Some (regInfo True False True None)
   \<and> \<not> TemporarilyOffline (regInfo True False True None)
   \<and> ArchitectureMonitor (regInfo True False True None) = None
   \<and> map_of (vms ((boxWorld (regInfo True False True None) ''TERMINATED'')
                     \<lparr>startsWork := False\<rparr>)) ''build1-api''
       = Some ''TERMINATED''"
proof -
  have w: "map_of (nodes ((boxWorld (regInfo True False True None) ''TERMINATED'')
                       \<lparr>startsWork := False\<rparr>)) ''build1-api''
       = Some (regInfo True False True None)
   \<and> \<not> TemporarilyOffline (regInfo True False True None)
   \<and> ArchitectureMonitor (regInfo True False True None) = None
   \<and> map_of (vms ((boxWorld (regInfo True False True None) ''TERMINATED'')
                     \<lparr>startsWork := False\<rparr>)) ''build1-api''
       = Some ''TERMINATED''"
    by (simp add: boxWorld_def simWorld0_def regInfo_def)
  show ?thesis by (rule conjI [OF run_offlineStartsFail w])
qed

text \<open>
  C2, amended. In every run of \<^verbatim>\<open>startBuildBoxAsync\<close> on box \<open>b\<close>, whatever the
  collaborators answer (the events of the run replay against them):

  When the transition returns, it has a verdict on the agent of \<open>b\<close> (a read that reported
  the agent connected, or the logged failure of the launcher after its 120 seconds), and
  right after it the transition read the maintenance flag of \<open>b\<close> and, exactly when it was
  reported set, sent the toggle to \<^verbatim>\<open>"online"\<close>, with any outcome. So the flag is cleared
  after a failed launch as well: a box is left online without its agent, with the failure
  logged.

  A toggle to \<^verbatim>\<open>"online"\<close> is for \<open>b\<close>, is the last request of the run, and comes right
  after the read that reported \<open>b\<close> in maintenance, which comes right after the verdict.

  A start request that fails is for \<open>b\<close>; its failure is logged and the transition does
  not return: the next request is the read of the node for the agent.
\<close>

theorem startBuildBoxAsync_clears_maintenance_after_verdict:
  assumes "startBuildBoxAsync E fuel b s = (res, s')"
  shows "replay E (emitted s s') (world s) = Some (world s')
    \<and> (res = Inr () \<longrightarrow>
         (\<exists>pre x rf Fin. emitted s s' = pre @ [x] @ infoEvents b rf @ Fin
            \<and> agentVerdict b x
            \<and> ((\<exists>d. rf = Decoded d \<and> TemporarilyOffline d)
                  \<and> (\<exists>ok. Fin = toggleEvents b ''online'' ok)
               \<or> (rf = Undecodable \<or> (\<exists>d. rf = Decoded d \<and> \<not> TemporarilyOffline d))
                  \<and> Fin = [])))
    \<and> (\<forall>pre b' ok post. emitted s s' = pre @ ToggleNodeStatus b' ''online'' ok # post \<longrightarrow>
         b' = b \<and> res = Inr ()
         \<and> post = (if ok then [Log (WasToggled b ''online'')] else [])
         \<and> (\<exists>pre' x d. pre = pre' @ [x, NodeInfoGet b (Decoded d)]
              \<and> TemporarilyOffline d \<and> agentVerdict b x))
    \<and> (\<forall>pre b' post. emitted s s' = pre @ InstancesStart b' False # post \<longrightarrow>
         b' = b \<and> (\<exists>r rest. post = Log StartRequestFailed # NodeInfoGet b r # rest))"
proof -
  from startBuildBoxAsync_run [OF assms] obtain H S A F where
    f: "faithful E s s'"
    and t: "trace s' = trace s @ H @ S @ A @ F"
    and h: "\<forall>e\<in>set H. \<not> isStart e \<and> \<not> isOnlineToggle e"
    and a: "\<forall>e\<in>set A. plain e"
    and ss: "startStep b S A" and os: "onlineStep b res A F"
    by blast
  from t have e: "emitted s s' = H @ S @ A @ F" by (simp add: emitted_def)
  have aq: "\<forall>e\<in>set A. \<not> isStart e \<and> \<not> isOnlineToggle e" using a plain_quiet by blast
  have so: "\<forall>e\<in>set S. \<not> isOnlineToggle e" using ss by (rule startStep_no_online)
  have fs: "\<forall>e\<in>set F. \<not> isStart e" using os by (rule onlineStep_no_start)
  have p0: "replay E (emitted s s') (world s) = Some (world s')"
  proof -
    from f obtain new where "trace s' = trace s @ new" "replay E new (world s) = Some (world s')"
      by (auto simp: faithful_def)
    then show ?thesis by (simp add: emitted_def)
  qed
  have p3: "res = Inr () \<longrightarrow>
         (\<exists>pre x rf Fin. emitted s s' = pre @ [x] @ infoEvents b rf @ Fin
            \<and> agentVerdict b x
            \<and> ((\<exists>d. rf = Decoded d \<and> TemporarilyOffline d)
                  \<and> (\<exists>ok. Fin = toggleEvents b ''online'' ok)
               \<or> (rf = Undecodable \<or> (\<exists>d. rf = Decoded d \<and> \<not> TemporarilyOffline d))
                  \<and> Fin = []))"
  proof
    assume "res = Inr ()"
    with os obtain A' x rf Fin where o: "A = A' @ [x]" "agentVerdict b x"
      "F = infoEvents b rf @ Fin"
      "(\<exists>d. rf = Decoded d \<and> TemporarilyOffline d) \<and> (\<exists>ok. Fin = toggleEvents b ''online'' ok)
       \<or> (rf = Undecodable \<or> (\<exists>d. rf = Decoded d \<and> \<not> TemporarilyOffline d)) \<and> Fin = []"
      unfolding onlineStep_def by blast
    from e o(1,3) have "emitted s s' = (H @ S @ A') @ [x] @ infoEvents b rf @ Fin" by simp
    with o(2,4) show "\<exists>pre x rf Fin. emitted s s' = pre @ [x] @ infoEvents b rf @ Fin
            \<and> agentVerdict b x
            \<and> ((\<exists>d. rf = Decoded d \<and> TemporarilyOffline d)
                  \<and> (\<exists>ok. Fin = toggleEvents b ''online'' ok)
               \<or> (rf = Undecodable \<or> (\<exists>d. rf = Decoded d \<and> \<not> TemporarilyOffline d))
                  \<and> Fin = [])"
      by blast
  qed
  have p1: "\<forall>pre b' ok post. emitted s s' = pre @ ToggleNodeStatus b' ''online'' ok # post \<longrightarrow>
         b' = b \<and> res = Inr ()
         \<and> post = (if ok then [Log (WasToggled b ''online'')] else [])
         \<and> (\<exists>pre' x d. pre = pre' @ [x, NodeInfoGet b (Decoded d)]
              \<and> TemporarilyOffline d \<and> agentVerdict b x)"
  proof (intro allI impI)
    fix pre b' ok post
    assume x: "emitted s s' = pre @ ToggleNodeStatus b' ''online'' ok # post"
    have on: "isOnlineToggle (ToggleNodeStatus b' ''online'' ok)" by simp
    have hsa: "\<forall>e\<in>set (H @ S @ A). \<not> isOnlineToggle e" using h so aq by (simp add: ball_Un)
    from os show "b' = b \<and> res = Inr ()
         \<and> post = (if ok then [Log (WasToggled b ''online'')] else [])
         \<and> (\<exists>pre' x d. pre = pre' @ [x, NodeInfoGet b (Decoded d)]
              \<and> TemporarilyOffline d \<and> agentVerdict b x)"
      unfolding onlineStep_def
    proof (elim disjE conjE exE)
      assume "\<forall>e\<in>set F. plain e"
      then have "\<forall>e\<in>set F. \<not> isOnlineToggle e" using plain_quiet by blast
      with hsa have "\<forall>e\<in>set (H @ S @ A @ F). \<not> isOnlineToggle e" by (simp add: ball_Un)
      with e x on show ?thesis by (metis in_set_conv_decomp)
    next
      fix A' y rf Fin d okf
      assume o: "res = Inr ()" "A = A' @ [y]" "agentVerdict b y" "F = infoEvents b rf @ Fin"
        "rf = Decoded d" "TemporarilyOffline d" "Fin = toggleEvents b ''online'' okf"
      let ?xs = "H @ S @ A' @ [y, NodeInfoGet b (Decoded d)]"
      let ?ys = "if okf then [Log (WasToggled b ''online'')] else []"
      from e x o have "?xs @ ToggleNodeStatus b ''online'' okf # ?ys
          = pre @ ToggleNodeStatus b' ''online'' ok # post"
        by (simp add: infoEvents_def toggleEvents_def)
      moreover note on
      moreover have "\<forall>e\<in>set ?xs. \<not> isOnlineToggle e"
        using hsa o(2) by (simp add: ball_Un)
      moreover have "\<forall>e\<in>set ?ys. \<not> isOnlineToggle e" by simp
      ultimately have r: "pre = ?xs
          \<and> ToggleNodeStatus b' ''online'' ok = ToggleNodeStatus b ''online'' okf \<and> post = ?ys"
        by (rule split_unique)
      then have "pre = (H @ S @ A') @ [y, NodeInfoGet b (Decoded d)]" by simp
      with o(3,6) have "\<exists>pre' x d. pre = pre' @ [x, NodeInfoGet b (Decoded d)]
              \<and> TemporarilyOffline d \<and> agentVerdict b x" by blast
      with r o(1) show ?thesis by simp
    next
      fix A' y rf Fin
      assume o: "F = infoEvents b rf @ Fin" "Fin = []"
      then have "\<forall>e\<in>set F. \<not> isOnlineToggle e" by (simp add: infoEvents_def)
      with hsa have "\<forall>e\<in>set (H @ S @ A @ F). \<not> isOnlineToggle e" by (simp add: ball_Un)
      with e x on show ?thesis by (metis in_set_conv_decomp)
    next
      fix A' y rf Fin d
      assume o: "F = infoEvents b rf @ Fin" "Fin = []"
      then have "\<forall>e\<in>set F. \<not> isOnlineToggle e" by (simp add: infoEvents_def)
      with hsa have "\<forall>e\<in>set (H @ S @ A @ F). \<not> isOnlineToggle e" by (simp add: ball_Un)
      with e x on show ?thesis by (metis in_set_conv_decomp)
    qed
  qed
  have p2: "\<forall>pre b' post. emitted s s' = pre @ InstancesStart b' False # post \<longrightarrow>
         b' = b \<and> (\<exists>r rest. post = Log StartRequestFailed # NodeInfoGet b r # rest)"
  proof (intro allI impI)
    fix pre b' post
    assume x: "emitted s s' = pre @ InstancesStart b' False # post"
    have st: "isStart (InstancesStart b' False)" by simp
    have hq: "\<forall>e\<in>set H. \<not> isStart e" using h by blast
    have af: "\<forall>e\<in>set (A @ F). \<not> isStart e" using aq fs by (simp add: ball_Un)
    from ss show "b' = b \<and> (\<exists>r rest. post = Log StartRequestFailed # NodeInfoGet b r # rest)"
      unfolding startStep_def
    proof (elim disjE exE conjE)
      assume "\<forall>e\<in>set S. plain e"
      then have "\<forall>e\<in>set S. \<not> isStart e" using plain_quiet by blast
      with hq af have "\<forall>e\<in>set (H @ S @ A @ F). \<not> isStart e" by (simp add: ball_Un)
      with e x st show ?thesis by (metis in_set_conv_decomp)
    next
      fix g r A'
      assume o: "S = runningEvents b g @ [InstancesStart b False, Log StartRequestFailed]"
        "A = NodeInfoGet b r # A'"
      let ?xs = "H @ runningEvents b g"
      let ?ys = "Log StartRequestFailed # A @ F"
      from e x o(1) have "?xs @ InstancesStart b False # ?ys
          = pre @ InstancesStart b' False # post" by simp
      moreover note st
      moreover have "\<forall>e\<in>set ?xs. \<not> isStart e" using hq by (simp add: ball_Un runningEvents_def)
      moreover have "\<forall>e\<in>set ?ys. \<not> isStart e" using af by simp
      ultimately have "pre = ?xs \<and> InstancesStart b' False = InstancesStart b False
          \<and> post = ?ys"
        by (rule split_unique)
      with o(2) show ?thesis by simp
    next
      fix g W
      assume o: "S = runningEvents b g @ InstancesStart b True # W" "\<forall>e\<in>set W. plain e"
      let ?xs = "H @ runningEvents b g"
      let ?ys = "W @ A @ F"
      from e x o(1) have "?xs @ InstancesStart b True # ?ys
          = pre @ InstancesStart b' False # post" by simp
      moreover note st
      moreover have "\<forall>e\<in>set ?xs. \<not> isStart e" using hq by (simp add: ball_Un runningEvents_def)
      moreover have "\<forall>e\<in>set ?ys. \<not> isStart e" using af o(2) plain_quiet
        by (auto simp: ball_Un)
      ultimately have "pre = ?xs \<and> InstancesStart b' False = InstancesStart b True
          \<and> post = ?ys"
        by (rule split_unique)
      then show ?thesis by simp
    qed
  qed
  from p0 p3 p1 p2 show ?thesis by blast
qed


theorem startBuildBoxAsync_clears_maintenance_after_verdict_witness:
  "startBuildBoxAsync sim 3 ''build1-api'' offlineStartsFail =
   (Inr (),
    \<lparr>world = (boxWorld (regInfo True False True None) ''TERMINATED'')
                \<lparr>startsWork := False\<rparr>,
     clock = 120,
     trace =
       [Log (IsOfflineTryingOnline ''build1-api''),
        NodeInfoGet ''build1-api'' (Decoded (regInfo True False True None)),
        ToggleNodeStatus ''build1-api'' ''offline'' True,
        Log (WasToggled ''build1-api'' ''offline''),
        InstancesGet ''build1-api'' (Some ''TERMINATED''),
        InstancesStart ''build1-api'' False,
        Log StartRequestFailed,
        NodeInfoGet ''build1-api'' (Decoded (regInfo True True True None)),
        Log (AgentRelaunched ''build1-api'')]
       @ concat (replicate 12
           [NodeInfoGet ''build1-api'' (Decoded (regInfo True True True None)),
            LaunchSlaveAgentPost ''build1-api'',
            Slept 10])
       @ [Log (DidNotComeOnline ''build1-api''),
          NodeInfoGet ''build1-api'' (Decoded (regInfo True True True None)),
          ToggleNodeStatus ''build1-api'' ''online'' True,
          Log (WasToggled ''build1-api'' ''online'')]\<rparr>)
   \<and> (\<exists>pre x rf Fin.
        [Log (IsOfflineTryingOnline ''build1-api''),
        NodeInfoGet ''build1-api'' (Decoded (regInfo True False True None)),
        ToggleNodeStatus ''build1-api'' ''offline'' True,
        Log (WasToggled ''build1-api'' ''offline''),
        InstancesGet ''build1-api'' (Some ''TERMINATED''),
        InstancesStart ''build1-api'' False,
        Log StartRequestFailed,
        NodeInfoGet ''build1-api'' (Decoded (regInfo True True True None)),
        Log (AgentRelaunched ''build1-api'')]
       @ concat (replicate 12
           [NodeInfoGet ''build1-api'' (Decoded (regInfo True True True None)),
            LaunchSlaveAgentPost ''build1-api'',
            Slept 10])
       @ [Log (DidNotComeOnline ''build1-api''),
          NodeInfoGet ''build1-api'' (Decoded (regInfo True True True None)),
          ToggleNodeStatus ''build1-api'' ''online'' True,
          Log (WasToggled ''build1-api'' ''online'')]
        = pre @ [x] @ infoEvents ''build1-api'' rf @ Fin
        \<and> agentVerdict ''build1-api'' x
        \<and> ((\<exists>d. rf = Decoded d \<and> TemporarilyOffline d)
              \<and> (\<exists>ok. Fin = toggleEvents ''build1-api'' ''online'' ok)
           \<or> (rf = Undecodable \<or> (\<exists>d. rf = Decoded d \<and> \<not> TemporarilyOffline d))
              \<and> Fin = []))
   \<and> (\<exists>pre' x d.
        ([Log (IsOfflineTryingOnline ''build1-api''),
        NodeInfoGet ''build1-api'' (Decoded (regInfo True False True None)),
        ToggleNodeStatus ''build1-api'' ''offline'' True,
        Log (WasToggled ''build1-api'' ''offline''),
        InstancesGet ''build1-api'' (Some ''TERMINATED''),
        InstancesStart ''build1-api'' False,
        Log StartRequestFailed,
        NodeInfoGet ''build1-api'' (Decoded (regInfo True True True None)),
        Log (AgentRelaunched ''build1-api'')]
       @ concat (replicate 12
           [NodeInfoGet ''build1-api'' (Decoded (regInfo True True True None)),
            LaunchSlaveAgentPost ''build1-api'',
            Slept 10])
       @ [Log (DidNotComeOnline ''build1-api''),
          NodeInfoGet ''build1-api'' (Decoded (regInfo True True True None))])
        = pre' @ [x, NodeInfoGet ''build1-api'' (Decoded d)]
        \<and> TemporarilyOffline d \<and> agentVerdict ''build1-api'' x)
   \<and> (\<exists>r rest.
        ([Log StartRequestFailed,
        NodeInfoGet ''build1-api'' (Decoded (regInfo True True True None)),
        Log (AgentRelaunched ''build1-api'')]
       @ concat (replicate 12
           [NodeInfoGet ''build1-api'' (Decoded (regInfo True True True None)),
            LaunchSlaveAgentPost ''build1-api'',
            Slept 10])
       @ [Log (DidNotComeOnline ''build1-api''),
          NodeInfoGet ''build1-api'' (Decoded (regInfo True True True None)),
          ToggleNodeStatus ''build1-api'' ''online'' True,
          Log (WasToggled ''build1-api'' ''online'')])
        = Log StartRequestFailed # NodeInfoGet ''build1-api'' r # rest)"
proof -
  note t = startBuildBoxAsync_clears_maintenance_after_verdict [OF run_offlineStartsFail, unfolded emitted_offlineStartsFail]
  have split_t:
    "[Log (IsOfflineTryingOnline ''build1-api''),
        NodeInfoGet ''build1-api'' (Decoded (regInfo True False True None)),
        ToggleNodeStatus ''build1-api'' ''offline'' True,
        Log (WasToggled ''build1-api'' ''offline''),
        InstancesGet ''build1-api'' (Some ''TERMINATED''),
        InstancesStart ''build1-api'' False,
        Log StartRequestFailed,
        NodeInfoGet ''build1-api'' (Decoded (regInfo True True True None)),
        Log (AgentRelaunched ''build1-api'')]
       @ concat (replicate 12
           [NodeInfoGet ''build1-api'' (Decoded (regInfo True True True None)),
            LaunchSlaveAgentPost ''build1-api'',
            Slept 10])
       @ [Log (DidNotComeOnline ''build1-api''),
          NodeInfoGet ''build1-api'' (Decoded (regInfo True True True None)),
          ToggleNodeStatus ''build1-api'' ''online'' True,
          Log (WasToggled ''build1-api'' ''online'')]
     = ([Log (IsOfflineTryingOnline ''build1-api''),
        NodeInfoGet ''build1-api'' (Decoded (regInfo True False True None)),
        ToggleNodeStatus ''build1-api'' ''offline'' True,
        Log (WasToggled ''build1-api'' ''offline''),
        InstancesGet ''build1-api'' (Some ''TERMINATED''),
        InstancesStart ''build1-api'' False,
        Log StartRequestFailed,
        NodeInfoGet ''build1-api'' (Decoded (regInfo True True True None)),
        Log (AgentRelaunched ''build1-api'')]
       @ concat (replicate 12
           [NodeInfoGet ''build1-api'' (Decoded (regInfo True True True None)),
            LaunchSlaveAgentPost ''build1-api'',
            Slept 10])
       @ [Log (DidNotComeOnline ''build1-api''),
          NodeInfoGet ''build1-api'' (Decoded (regInfo True True True None))])
       @ ToggleNodeStatus ''build1-api'' ''online'' True # [Log (WasToggled ''build1-api'' ''online'')]"
    by simp
  have split_s:
    "[Log (IsOfflineTryingOnline ''build1-api''),
        NodeInfoGet ''build1-api'' (Decoded (regInfo True False True None)),
        ToggleNodeStatus ''build1-api'' ''offline'' True,
        Log (WasToggled ''build1-api'' ''offline''),
        InstancesGet ''build1-api'' (Some ''TERMINATED''),
        InstancesStart ''build1-api'' False,
        Log StartRequestFailed,
        NodeInfoGet ''build1-api'' (Decoded (regInfo True True True None)),
        Log (AgentRelaunched ''build1-api'')]
       @ concat (replicate 12
           [NodeInfoGet ''build1-api'' (Decoded (regInfo True True True None)),
            LaunchSlaveAgentPost ''build1-api'',
            Slept 10])
       @ [Log (DidNotComeOnline ''build1-api''),
          NodeInfoGet ''build1-api'' (Decoded (regInfo True True True None)),
          ToggleNodeStatus ''build1-api'' ''online'' True,
          Log (WasToggled ''build1-api'' ''online'')]
     = [Log (IsOfflineTryingOnline ''build1-api''),
        NodeInfoGet ''build1-api'' (Decoded (regInfo True False True None)),
        ToggleNodeStatus ''build1-api'' ''offline'' True,
        Log (WasToggled ''build1-api'' ''offline''),
        InstancesGet ''build1-api'' (Some ''TERMINATED'')]
       @ InstancesStart ''build1-api'' False # ([Log StartRequestFailed,
        NodeInfoGet ''build1-api'' (Decoded (regInfo True True True None)),
        Log (AgentRelaunched ''build1-api'')]
       @ concat (replicate 12
           [NodeInfoGet ''build1-api'' (Decoded (regInfo True True True None)),
            LaunchSlaveAgentPost ''build1-api'',
            Slept 10])
       @ [Log (DidNotComeOnline ''build1-api''),
          NodeInfoGet ''build1-api'' (Decoded (regInfo True True True None)),
          ToggleNodeStatus ''build1-api'' ''online'' True,
          Log (WasToggled ''build1-api'' ''online'')])"
    by simp
  note a = t [THEN conjunct2, THEN conjunct1, rule_format, OF refl]
  note b = t [THEN conjunct2, THEN conjunct2, THEN conjunct1, rule_format, OF split_t,
      THEN conjunct2, THEN conjunct2, THEN conjunct2]
  note c = t [THEN conjunct2, THEN conjunct2, THEN conjunct2, rule_format, OF split_s,
      THEN conjunct2]
  show ?thesis
    by (rule conjI [OF run_offlineStartsFail conjI [OF a conjI [OF b c]]])
qed


end
